theory Spec2Isabelle
  imports Main "HOL-Library.Word" "HOL-Library.Sublist"
begin

section \<open>The tag scanner\<close>

text \<open>
  Byte slices are modelled as \<open>string\<close> (a list of 8-bit characters). Go's \<open>nil\<close> slice
  is modelled as the empty list: the code only ever asks a tag for its length, its
  prefix, its bytes or equality with a literal, and all of these agree on \<open>nil\<close> and on
  the empty slice.

  \<open>bytes.IndexByte\<close> returns the index of the first occurrence of the byte, or \<open>-1\<close>.
\<close>

definition IndexByte :: "string \<Rightarrow> char \<Rightarrow> int" where
  "IndexByte s c = (if c \<in> set s then int (length (takeWhile (\<lambda>x. x \<noteq> c) s)) else - 1)"

text \<open>
  \<open>func next(data []byte) (skip, tag, rest []byte)\<close>. The name \<open>next\<close> is a keyword of
  the proof language, hence \<open>next_tag\<close>.
\<close>

definition next_tag :: "string \<Rightarrow> string \<times> string \<times> string" where
  "next_tag data =
     (let i = IndexByte data (CHR ''<'') in
      if i < 0 then (data, [], [])
      else
        let j = IndexByte (drop (nat i) data) (CHR ''>'') in
        if j < 0 then (data, [], [])
        else
          let j' = j + i + 1 in
          (take (nat i) data, drop (nat i) (take (nat j') data), drop (nat j') data))"

section \<open>Types and errors\<close>

text \<open>
  Go types as far as the decoder can tell them apart through \<open>reflect\<close>. A struct type
  carries its name (empty for a struct literal type) and, for each field, the field
  name, the value of the \<open>plist\<close> key of its tag if the tag has one, and the field type.
  \<open>TOther\<close> stands for any type of another kind (other integer widths, maps, arrays,
  channels, functions, defined types over a basic type), identified by its name.
\<close>

datatype gtype =
    TBool
  | TInt
  | TUint8
  | TFloat32
  | TFloat64
  | TString
  | TInterface
  | TStruct string "(string \<times> string option \<times> gtype) list"
  | TSlice gtype
  | TPtr gtype
  | TOther string

text \<open>The ways in which the calls into \<open>reflect\<close> and the index expression can panic.\<close>

datatype panic =
    SetUnexported            \<comment> \<open>\<open>Set\<close> on a value obtained using an unexported field\<close>
  | SetUnaddressable         \<comment> \<open>\<open>Set\<close> on an unaddressable value\<close>
  | NotAssignable gtype gtype  \<comment> \<open>\<open>Set\<close>: value of the first type into the second\<close>
  | ZeroValue                \<comment> \<open>a method called on the zero \<open>reflect.Value\<close>\<close>
  | IndexOutOfRange

text \<open>One constructor for each \<open>fmt.Errorf\<close> of the source, with its arguments.\<close>

datatype error =
    NotAPlist                      \<comment> \<open>not a plist\<close>
  | JunkOnEnd                      \<comment> \<open>junk on end of plist\<close>
  | UnexpectedEndOfData            \<comment> \<open>unexpected end of data\<close>
  | DictIntoNonStruct gtype        \<comment> \<open>cannot unmarshal <dict> into non-struct T\<close>
  | ArrayIntoNonSlice gtype        \<comment> \<open>cannot unmarshal <array> into non-slice T\<close>
  | EofInside string               \<comment> \<open>eof inside <tag>\<close>
  | UnexpectedTagInsideDict string \<comment> \<open>unexpected tag T inside <dict>\<close>
  | ExpectedButGot string string   \<comment> \<open>expected </tag> but got T\<close>
  | NonInteger string              \<comment> \<open>non-integer in <integer> tag: body\<close>
  | NonFloat string                \<comment> \<open>non-float in <real> tag: body\<close>
  | NonDate string                 \<comment> \<open>non-date in <date> tag: body\<close>
  | NonBase64 string               \<comment> \<open>non-base64 in <data> tag: body\<close>
  | UnexpectedTag string           \<comment> \<open>unexpected tag T\<close>
  | UnexpectedEof                  \<comment> \<open>unexpected eof\<close>
  | UnexpectedClosingTag           \<comment> \<open>unexpected closing tag\<close>
  | Panic panic                    \<comment> \<open>the goroutine panics instead of returning\<close>

section \<open>Skipping a value\<close>

lemma IndexByte_less: "0 \<le> IndexByte s c \<Longrightarrow> nat (IndexByte s c) < length s"
proof -
  assume "0 \<le> IndexByte s c"
  then have c: "c \<in> set s"
    by (simp add: IndexByte_def split: if_splits)
  have "length (takeWhile (\<lambda>x. x \<noteq> c) s) < length s"
    using c by (induction s) auto
  with c show ?thesis
    by (simp add: IndexByte_def)
qed

lemma next_tag_rest_shorter:
  assumes "next_tag data = (skip, tag, rest)" and "tag \<noteq> []"
  shows "length rest < length data"
proof -
  let ?i = "IndexByte data (CHR ''<'')"
  let ?j = "IndexByte (drop (nat ?i) data) (CHR ''>'')"
  from assms have i: "0 \<le> ?i" and j: "0 \<le> ?j"
    by (auto simp: next_tag_def Let_def split: if_splits)
  from assms i j have rest: "rest = drop (nat (?j + ?i + 1)) data"
    by (auto simp: next_tag_def Let_def split: if_splits)
  from IndexByte_less [OF i] have "0 < length data"
    by (cases data) auto
  with i j rest show ?thesis
    by (simp add: nat_add_distrib)
qed

text \<open>
  \<open>func skipValue(data []byte) (rest []byte, err error)\<close>: the loop with its counter
  \<open>n\<close>. The index expression \<open>tag[1]\<close> panics on a tag shorter than two bytes.
\<close>

function skipLoop :: "nat \<Rightarrow> string \<Rightarrow> error + string" where
  "skipLoop n data =
     (case next_tag data of (_, tag, data') \<Rightarrow>
        if length tag = 0 then Inl UnexpectedEof
        else if length tag < 2 then Inl (Panic IndexOutOfRange)
        else if tag ! 1 = CHR ''/'' then
          (if n = 0 then Inl UnexpectedClosingTag
           else if n - 1 = 0 then Inr data'
           else skipLoop (n - 1) data')
        else skipLoop (n + 1) data')"
  by pat_completeness auto
termination
  by (relation "measure (\<lambda>(n, data). length data)")
     (auto dest: next_tag_rest_shorter [OF sym])

declare skipLoop.simps [simp del]

definition skipValue :: "string \<Rightarrow> error + string" where
  "skipValue data = skipLoop 0 data"

section \<open>Destinations as \<open>reflect\<close> shows them\<close>

text \<open>
  Go values, each carrying what is needed to tell its type. A \<open>float32\<close> or \<open>float64\<close>
  is its IEEE 754 bit pattern. An \<open>interface{}\<close> holds a concrete value or is \<open>nil\<close>; a
  pointer holds the value it points to or is \<open>nil\<close>: the destination is taken to be a
  tree, without two pointers to one object. A \<open>nil\<close> slice and an empty slice are not
  told apart (the decoder never asks). \<open>time.Time\<close> is, for \<open>reflect\<close>, a struct with
  unexported fields.
\<close>

datatype gval =
    VBool bool
  | VInt int
  | VUint8 char
  | VFloat32 "32 word"
  | VFloat64 "64 word"
  | VString string
  | VInterface "gval option"
  | VStruct string "(string \<times> string option \<times> gval) list"
  | VSlice gtype "gval list"
  | VPtr gtype "gval option"
  | VOther string nat

fun typeOf :: "gval \<Rightarrow> gtype"
  and typeOfFields :: "(string \<times> string option \<times> gval) list \<Rightarrow> (string \<times> string option \<times> gtype) list"
where
  "typeOf (VBool _) = TBool"
| "typeOf (VInt _) = TInt"
| "typeOf (VUint8 _) = TUint8"
| "typeOf (VFloat32 _) = TFloat32"
| "typeOf (VFloat64 _) = TFloat64"
| "typeOf (VString _) = TString"
| "typeOf (VInterface _) = TInterface"
| "typeOf (VStruct name fs) = TStruct name (typeOfFields fs)"
| "typeOf (VSlice t _) = TSlice t"
| "typeOf (VPtr t _) = TPtr t"
| "typeOf (VOther name _) = TOther name"
| "typeOfFields [] = []"
| "typeOfFields ((name, tg, v) # fs) = (name, tg, typeOf v) # typeOfFields fs"

text \<open>The zero value of a type, as \<open>reflect.New\<close> allocates it.\<close>

fun zero :: "gtype \<Rightarrow> gval"
  and zeroFields :: "(string \<times> string option \<times> gtype) list \<Rightarrow> (string \<times> string option \<times> gval) list"
where
  "zero TBool = VBool False"
| "zero TInt = VInt 0"
| "zero TUint8 = VUint8 (CHR 0x00)"
| "zero TFloat32 = VFloat32 0"
| "zero TFloat64 = VFloat64 0"
| "zero TString = VString []"
| "zero TInterface = VInterface None"
| "zero (TStruct name fs) = VStruct name (zeroFields fs)"
| "zero (TSlice t) = VSlice t []"
| "zero (TPtr t) = VPtr t None"
| "zero (TOther name) = VOther name 0"
| "zeroFields [] = []"
| "zeroFields ((name, tg, t) # fs) = (name, tg, zero t) # zeroFields fs"

lemma typeOf_zero: "typeOf (zero t) = t" and "typeOfFields (zeroFields fs) = fs"
  by (induction t and fs rule: zero_zeroFields.induct) auto

datatype kind =
    KInvalid | KBool | KInt | KUint8 | KFloat32 | KFloat64 | KString
  | KInterface | KStruct | KSlice | KPtr | KOther

fun kindOf :: "gtype \<Rightarrow> kind" where
  "kindOf TBool = KBool"
| "kindOf TInt = KInt"
| "kindOf TUint8 = KUint8"
| "kindOf TFloat32 = KFloat32"
| "kindOf TFloat64 = KFloat64"
| "kindOf TString = KString"
| "kindOf TInterface = KInterface"
| "kindOf (TStruct _ _) = KStruct"
| "kindOf (TSlice _) = KSlice"
| "kindOf (TPtr _) = KPtr"
| "kindOf (TOther _) = KOther"

text \<open>
  A \<open>reflect.Value\<close> is the zero \<open>Value\<close> or a value with its flags. Of the flags the
  decoder depends on whether \<open>Set\<close> is allowed: a value is settable when it is
  addressable and was not obtained using an unexported struct field; the read-only
  flag is inherited by everything reached from the value.
\<close>

datatype flag = Settable | Unaddressable | ReadOnly

datatype rvalue = Invalid | Value gval flag

fun Kind :: "rvalue \<Rightarrow> kind" where
  "Kind Invalid = KInvalid"
| "Kind (Value x f) = kindOf (typeOf x)"

fun Type :: "rvalue \<Rightarrow> panic + gtype" where
  "Type Invalid = Inl ZeroValue"
| "Type (Value x f) = Inr (typeOf x)"

text \<open>
  \<open>v.Set(x)\<close> panics unless \<open>v\<close> is settable and the type of \<open>x\<close> is assignable to
  the type of \<open>v\<close>: the two types are identical, or \<open>v\<close> is an \<open>interface{}\<close>, which
  then holds \<open>x\<close>. The values the decoder sets are of the types \<open>string\<close>, \<open>int\<close>,
  \<open>float64\<close>, \<open>time.Time\<close>, \<open>[]byte\<close> and \<open>bool\<close>, of a pointer type and of a slice
  type.
\<close>

fun Set :: "rvalue \<Rightarrow> gval \<Rightarrow> panic + rvalue" where
  "Set Invalid x = Inl ZeroValue"
| "Set (Value old ReadOnly) x = Inl SetUnexported"
| "Set (Value old Unaddressable) x = Inl SetUnaddressable"
| "Set (Value old Settable) x =
     (if typeOf old = TInterface then Inr (Value (VInterface (Some x)) Settable)
      else if typeOf x = typeOf old then Inr (Value x Settable)
      else Inl (NotAssignable (typeOf x) (typeOf old)))"

text \<open>
  The operations below are applied by the decoder only to a value of the kind it has
  just checked (\<open>Elem\<close> to a pointer that is not \<open>nil\<close>, \<open>Field\<close> to a struct and an index
  below \<open>NumField\<close>, \<open>Append\<close> to a slice); their last equations are not reached.
  \<open>storeElem\<close> and \<open>storeField\<close> write the decoded part back into the whole, which in
  Go happens in place.
\<close>

fun IsNil :: "rvalue \<Rightarrow> bool" where
  "IsNil (Value (VPtr t None) f) = True"
| "IsNil _ = False"

fun New :: "gtype \<Rightarrow> gval" where
  "New t = VPtr t (Some (zero t))"

fun Elem :: "rvalue \<Rightarrow> rvalue" where
  "Elem (Value (VPtr t (Some x)) f) = Value x (if f = ReadOnly then ReadOnly else Settable)"
| "Elem v = v"

fun storeElem :: "rvalue \<Rightarrow> rvalue \<Rightarrow> rvalue" where
  "storeElem (Value (VPtr t p) f) (Value x g) = Value (VPtr t (Some x)) f"
| "storeElem v e = v"

fun elemType :: "gtype \<Rightarrow> gtype" where
  "elemType (TPtr t) = t"
| "elemType (TSlice t) = t"
| "elemType t = t"

text \<open>
  A field is exported when its name begins with an upper-case letter (here: of ASCII).
  \<open>Field\<close> clashes with a constant of the library, hence \<open>Field_v\<close>.
\<close>

definition exported :: "string \<Rightarrow> bool" where
  "exported name = (case name of [] \<Rightarrow> False | c # _ \<Rightarrow> (65::nat) \<le> of_char c \<and> of_char c \<le> (90::nat))"

fun Field_v :: "rvalue \<Rightarrow> nat \<Rightarrow> rvalue" where
  "Field_v (Value (VStruct name fs) f) i =
     (case fs ! i of (fname, tg, x) \<Rightarrow>
        Value x (if f = ReadOnly then ReadOnly else if exported fname then f else ReadOnly))"
| "Field_v v i = v"

fun storeField :: "rvalue \<Rightarrow> nat \<Rightarrow> rvalue \<Rightarrow> rvalue" where
  "storeField (Value (VStruct name fs) f) i (Value x g) =
     (case fs ! i of (fname, tg, old) \<Rightarrow> Value (VStruct name (fs[i := (fname, tg, x)])) f)"
| "storeField v i e = v"

fun structFields :: "gtype \<Rightarrow> (string \<times> string option \<times> gtype) list" where
  "structFields (TStruct name fs) = fs"
| "structFields t = []"

fun Append :: "rvalue \<Rightarrow> rvalue \<Rightarrow> gval" where
  "Append (Value (VSlice t xs) f) (Value x g) = VSlice t (xs @ [x])"
| "Append (Value y f) e = y"
| "Append Invalid e = VOther [] 0"

text \<open>\<open>f.Tag.Get("plist")\<close>: the empty string when the tag has no such key.\<close>

definition TagGet :: "string option \<Rightarrow> string" where
  "TagGet tg = (case tg of None \<Rightarrow> [] | Some s \<Rightarrow> s)"

section \<open>The standard library\<close>

text \<open>
  The conversions of \<open>strconv\<close>, \<open>time\<close> and \<open>encoding/base64\<close> are not part of the
  package; the decoder is parametrised by them. \<open>None\<close> is a non-nil \<open>err\<close>.
  \<open>ParseFloat s bits\<close> returns a \<open>float64\<close> also for \<open>bits = 32\<close>; \<open>ParseTime\<close> is
  \<open>time.Parse(time.RFC3339, s)\<close> and \<open>DecodeString\<close> is that of \<open>base64.StdEncoding\<close>.
\<close>

record stdlib =
  Atoi :: "string \<Rightarrow> int option"
  ParseFloat :: "string \<Rightarrow> nat \<Rightarrow> 64 word option"
  ParseTime :: "string \<Rightarrow> gval option"
  DecodeString :: "string \<Rightarrow> string option"

section \<open>The value decoder\<close>

text \<open>
  The loop over the fields in the \<open><dict>\<close> case: the index of the first field whose
  name or whose \<open>plist\<close> tag equals the key.
\<close>

function fieldLoop :: "(string \<times> string option \<times> gtype) list \<Rightarrow> string \<Rightarrow> nat \<Rightarrow> nat option" where
  "fieldLoop fs name i =
     (if i < length fs then
        (case fs ! i of (fname, tg, t) \<Rightarrow>
           if fname = name \<or> TagGet tg = name then Some i
           else fieldLoop fs name (i + 1))
      else None)"
  by pat_completeness auto
termination
  by (relation "measure (\<lambda>(fs, name, i). length fs - i)") auto

declare fieldLoop.simps [simp del]

text \<open>The body of \<open>if v.Kind() == reflect.Ptr\<close>, before \<open>v = v.Elem()\<close>.\<close>

definition indirect :: "rvalue \<Rightarrow> panic + rvalue" where
  "indirect v =
     (if IsNil v then
        (case Type v of Inl p \<Rightarrow> Inl p | Inr t \<Rightarrow> Set v (New (elemType t)))
      else Inr v)"

text \<open>\<open>v.Set(reflect.ValueOf(x)); return data, nil\<close>\<close>

definition setTo :: "rvalue \<Rightarrow> gval \<Rightarrow> string \<Rightarrow> (error + string) \<times> rvalue" where
  "setTo v x data = (case Set v x of Inl p \<Rightarrow> (Inl (Panic p), v) | Inr v' \<Rightarrow> (Inr data, v'))"

text \<open>The cases of \<open>switch string(tag)\<close> that do not recurse, and the final return.\<close>

definition unmarshalScalar :: "stdlib \<Rightarrow> string \<Rightarrow> string \<Rightarrow> rvalue \<Rightarrow> (error + string) \<times> rvalue" where
  "unmarshalScalar L tag data v =
    (if tag = ''<string>'' then
       (case next_tag data of (body, etag, data') \<Rightarrow>
          if length etag = 0 then (Inl (EofInside ''<string>''), v)
          else if etag \<noteq> ''</string>'' then (Inl (ExpectedButGot ''</string>'' etag), v)
          else setTo v (VString body) data')
     else if tag = ''<integer>'' then
       (case next_tag data of (body, etag, data') \<Rightarrow>
          if length etag = 0 then (Inl (EofInside ''<integer>''), v)
          else if etag \<noteq> ''</integer>'' then (Inl (ExpectedButGot ''</integer>'' etag), v)
          else (case Atoi L body of
                  None \<Rightarrow> (Inl (NonInteger body), v)
                | Some i \<Rightarrow> setTo v (VInt i) data'))
     else if tag = ''<real>'' then
       (let bits = (if Kind v = KFloat32 then 32 else 64) in
        case next_tag data of (body, etag, data') \<Rightarrow>
          if length etag = 0 then (Inl (EofInside ''<real>''), v)
          else if etag \<noteq> ''</real>'' then (Inl (ExpectedButGot ''</real>'' etag), v)
          else (case ParseFloat L body bits of
                  None \<Rightarrow> (Inl (NonFloat body), v)
                | Some f \<Rightarrow> setTo v (VFloat64 f) data'))
     else if tag = ''<date>'' then
       (case next_tag data of (body, etag, data') \<Rightarrow>
          if length etag = 0 then (Inl (EofInside ''<date>''), v)
          else if etag \<noteq> ''</date>'' then (Inl (ExpectedButGot ''</date>'' etag), v)
          else (case ParseTime L body of
                  None \<Rightarrow> (Inl (NonDate body), v)
                | Some t \<Rightarrow> setTo v t data'))
     else if tag = ''<data>'' then
       (case next_tag data of (body, etag, data') \<Rightarrow>
          if length etag = 0 then (Inl (EofInside ''<data>''), v)
          else if etag \<noteq> ''</data>'' then (Inl (ExpectedButGot ''</data>'' etag), v)
          else (case DecodeString L body of
                  None \<Rightarrow> (Inl (NonBase64 body), v)
                | Some d \<Rightarrow> setTo v (VSlice TUint8 (map VUint8 d)) data'))
     else if tag = ''<true/>'' then setTo v (VBool True) data
     else if tag = ''<false/>'' then setTo v (VBool False) data
     else (Inl (UnexpectedTag tag), v))"

text \<open>
  \<open>func unmarshalValue(data []byte, v reflect.Value) (rest []byte, err error)\<close>, with
  its switch (\<open>unmarshalTag\<close>) and the loops of the \<open><dict>\<close> and \<open><array>\<close> cases. The
  result is the error or the rest of the data, and the destination as the call leaves
  it: what was written before an error stays written.

  Every call reads at least one tag, so that the rest is shorter than the data: this
  is needed for the termination of the loops, and proved first where the function is
  defined.
\<close>

function unmarshalValue :: "stdlib \<Rightarrow> string \<Rightarrow> rvalue \<Rightarrow> (error + string) \<times> rvalue"
  and unmarshalTag :: "stdlib \<Rightarrow> string \<Rightarrow> string \<Rightarrow> rvalue \<Rightarrow> (error + string) \<times> rvalue"
  and dictLoop :: "stdlib \<Rightarrow> gtype \<Rightarrow> string \<Rightarrow> rvalue \<Rightarrow> (error + string) \<times> rvalue"
  and arrayLoop :: "stdlib \<Rightarrow> gtype \<Rightarrow> string \<Rightarrow> rvalue \<Rightarrow> (error + string) \<times> rvalue"
where
  "unmarshalValue L data v =
     (case next_tag data of (_, tag, data') \<Rightarrow>
        if tag = [] then (Inl UnexpectedEndOfData, v)
        else if Kind v = KPtr then
          (case indirect v of
             Inl p \<Rightarrow> (Inl (Panic p), v)
           | Inr v' \<Rightarrow>
               (case unmarshalTag L tag data' (Elem v') of (r, e) \<Rightarrow> (r, storeElem v' e)))
        else unmarshalTag L tag data' v)"
| "unmarshalTag L tag data v =
     (if tag = ''<dict>'' then
        (case Type v of
           Inl p \<Rightarrow> (Inl (Panic p), v)
         | Inr t \<Rightarrow>
             if Kind v \<noteq> KStruct then (Inl (DictIntoNonStruct t), v)
             else dictLoop L t data v)
      else if tag = ''<array>'' then
        (case Type v of
           Inl p \<Rightarrow> (Inl (Panic p), v)
         | Inr t \<Rightarrow>
             if Kind v \<noteq> KSlice then (Inl (ArrayIntoNonSlice t), v)
             else arrayLoop L t data v)
      else unmarshalScalar L tag data v)"
| "dictLoop L t data v =
     (case next_tag data of (_, tag, data1) \<Rightarrow>
        if length tag = 0 then (Inl (EofInside ''<dict>''), v)
        else if tag = ''</dict>'' then (Inr data1, v)
        else if tag \<noteq> ''<key>'' then (Inl (UnexpectedTagInsideDict tag), v)
        else
          (case next_tag data1 of (body, tag2, data2) \<Rightarrow>
             if length tag2 = 0 then (Inl (EofInside ''<dict>''), v)
             else if tag2 \<noteq> ''</key>'' then (Inl (UnexpectedTagInsideDict tag2), v)
             else
               (case fieldLoop (structFields t) body 0 of
                  Some i \<Rightarrow>
                    (case unmarshalValue L data2 (Field_v v i) of
                       (Inl err, e) \<Rightarrow> (Inl err, storeField v i e)
                     | (Inr data3, e) \<Rightarrow> dictLoop L t data3 (storeField v i e))
                | None \<Rightarrow>
                    (case skipValue data2 of
                       Inl err \<Rightarrow> (Inl err, v)
                     | Inr data3 \<Rightarrow> dictLoop L t data3 v))))"
| "arrayLoop L t data v =
     (case next_tag data of (_, tag, rest) \<Rightarrow>
        if length tag = 0 then (Inl (EofInside ''<array>''), v)
        else if tag = ''</array>'' then (Inr rest, v)
        else
          (case unmarshalValue L data (Elem (Value (New (elemType t)) Unaddressable)) of
             (Inl err, e) \<Rightarrow> (Inl err, v)
           | (Inr data', e) \<Rightarrow>
               (case Set v (Append v e) of
                  Inl p \<Rightarrow> (Inl (Panic p), v)
                | Inr v' \<Rightarrow> arrayLoop L t data' v')))"
  by pat_completeness auto

lemma skipLoop_shorter: "skipLoop n data = Inr r \<Longrightarrow> length r < length data"
proof (induction n data rule: skipLoop.induct)
  case (1 n data)
  obtain s tag d where nt: "next_tag data = (s, tag, d)"
    by (cases "next_tag data") auto
  show ?case
  proof (cases "tag = []")
    case True
    with "1.prems" nt show ?thesis by (simp add: skipLoop.simps [of n data])
  next
    case False
    with nt have lt: "length d < length data"
      by (rule next_tag_rest_shorter)
    from False "1.prems" nt lt "1.IH" [OF nt [symmetric] refl] show ?thesis
      by (auto simp: skipLoop.simps [of n data] split: if_splits dest!: meta_mp)
  qed
qed

lemma setTo_rest: "setTo v x data = (Inr r, v') \<Longrightarrow> r = data"
  by (auto simp: setTo_def split: sum.splits)

lemma next_tag_rest_le: "next_tag data = (s, tag, rest) \<Longrightarrow> length rest \<le> length data"
  by (cases "tag = []") (auto simp: next_tag_def Let_def split: if_splits)

lemma unmarshalScalar_shorter:
  "unmarshalScalar L tag data v = (Inr r, v') \<Longrightarrow> length r \<le> length data"
  unfolding unmarshalScalar_def
  by (auto simp: Let_def split: if_splits prod.splits option.splits
           dest!: setTo_rest dest: next_tag_rest_le)

lemma skipValue_shorter: "skipValue data = Inr r \<Longrightarrow> length r < length data"
  unfolding skipValue_def by (rule skipLoop_shorter)

lemma unmarshal_shorter_partial:
  "unmarshalValue_unmarshalTag_dictLoop_arrayLoop_dom (Inl (Inl (L, data, v))) \<Longrightarrow>
     (\<And>r v'. unmarshalValue L data v = (Inr r, v') \<Longrightarrow> length r < length data)"
  "unmarshalValue_unmarshalTag_dictLoop_arrayLoop_dom (Inl (Inr (L, tag, data, v))) \<Longrightarrow>
     (\<And>r v'. unmarshalTag L tag data v = (Inr r, v') \<Longrightarrow> length r \<le> length data)"
  "unmarshalValue_unmarshalTag_dictLoop_arrayLoop_dom (Inr (Inl (L, t, data, v))) \<Longrightarrow>
     (\<And>r v'. dictLoop L t data v = (Inr r, v') \<Longrightarrow> length r < length data)"
  "unmarshalValue_unmarshalTag_dictLoop_arrayLoop_dom (Inr (Inr (L, t, data, v))) \<Longrightarrow>
     (\<And>r v'. arrayLoop L t data v = (Inr r, v') \<Longrightarrow> length r < length data)"
proof (induct rule: unmarshalValue_unmarshalTag_dictLoop_arrayLoop.pinduct)
  case (1 L data v)
  obtain s tag d where nt: "next_tag data = (s, tag, d)"
    by (cases "next_tag data") auto
  show ?case
  proof (cases "tag = []")
    case True
    with "1.prems" "1.hyps"(1) nt show ?thesis
      by (simp add: unmarshalValue.psimps)
  next
    case False
    with nt have lt: "length d < length data"
      by (rule next_tag_rest_shorter)
    show ?thesis
    proof (cases "Kind v = KPtr")
      case True
      with "1.prems" "1.hyps"(1) nt False obtain b e where
        b: "indirect v = Inr b"
        and e: "unmarshalTag L tag d (Elem b) = (Inr r, e)"
        by (auto simp: unmarshalValue.psimps split: sum.splits prod.splits)
      from "1.hyps"(2) [OF _ _ False True b e, of s "(tag, d)"] nt
      have "length r \<le> length d" by simp
      with lt show ?thesis by simp
    next
      case notptr: False
      with "1.prems" "1.hyps"(1) nt False have
        e: "unmarshalTag L tag d v = (Inr r, v')"
        by (auto simp: unmarshalValue.psimps)
      from "1.hyps"(3) [OF _ _ False notptr e, of s "(tag, d)"] nt
      have "length r \<le> length d" by simp
      with lt show ?thesis by simp
    qed
  qed
next
  case (2 L tag data v)
  consider (dict) "tag = ''<dict>''" | (array) "tag \<noteq> ''<dict>''" "tag = ''<array>''"
    | (scalar) "tag \<noteq> ''<dict>''" "tag \<noteq> ''<array>''"
    by blast
  then show ?case
  proof cases
    case dict
    with "2.prems" "2.hyps"(1) obtain t where
      t: "Type v = Inr t" and k: "\<not> Kind v \<noteq> KStruct" and d: "dictLoop L t data v = (Inr r, v')"
      by (auto simp: unmarshalTag.psimps split: sum.splits if_splits)
    from "2.hyps"(2) [OF dict t k d] show ?thesis by simp
  next
    case array
    with "2.prems" "2.hyps"(1) obtain t where
      t: "Type v = Inr t" and k: "\<not> Kind v \<noteq> KSlice" and d: "arrayLoop L t data v = (Inr r, v')"
      by (auto simp: unmarshalTag.psimps split: sum.splits if_splits)
    from "2.hyps"(3) [OF array t k d] show ?thesis by simp
  next
    case scalar
    with "2.prems" "2.hyps"(1) have "unmarshalScalar L tag data v = (Inr r, v')"
      by (simp add: unmarshalTag.psimps)
    then show ?thesis by (rule unmarshalScalar_shorter)
  qed
next
  case (3 L t data v)
  obtain s tag d1 where nt: "next_tag data = (s, tag, d1)"
    by (cases "next_tag data") auto
  obtain body tag2 d2 where nt2: "next_tag d1 = (body, tag2, d2)"
    by (cases "next_tag d1") auto
  from "3.prems" "3.hyps"(1) nt have tag: "tag \<noteq> []"
    by (auto simp: dictLoop.psimps)
  with nt have lt: "length d1 < length data"
    by (rule next_tag_rest_shorter)
  show ?case
  proof (cases "tag = ''</dict>''")
    case True
    with "3.prems" "3.hyps"(1) nt lt show ?thesis
      by (auto simp: dictLoop.psimps)
  next
    case False
    with "3.prems" "3.hyps"(1) nt nt2 tag have key: "\<not> tag \<noteq> ''<key>''"
      and tag2: "length tag2 \<noteq> 0" and ekey: "\<not> tag2 \<noteq> ''</key>''"
      by (auto simp: dictLoop.psimps split: if_splits)
    from nt2 tag2 have lt2: "length d2 < length d1"
      by (auto dest: next_tag_rest_shorter)
    note pre = nt [symmetric] refl _ False key nt2 [symmetric] refl tag2 ekey
    show ?thesis
    proof (cases "fieldLoop (structFields t) body 0")
      case None
      with "3.prems" "3.hyps"(1) nt nt2 tag False key tag2 ekey obtain d3 where
        sk: "skipValue d2 = Inr d3" and rec: "dictLoop L t d3 v = (Inr r, v')"
        by (auto simp: dictLoop.psimps split: sum.splits)
      from tag have tag': "length tag \<noteq> 0" by simp
      from "3.hyps"(2) [OF nt [symmetric] refl tag' False key nt2 [symmetric] refl tag2 ekey None sk rec]
      have "length r < length d3" .
      with skipValue_shorter [OF sk] lt lt2 show ?thesis by simp
    next
      case (Some i)
      from tag have tag': "length tag \<noteq> 0" by simp
      obtain res e where um: "unmarshalValue L d2 (Field_v v i) = (res, e)"
        by (cases "unmarshalValue L d2 (Field_v v i)") auto
      with Some "3.prems" "3.hyps"(1) nt nt2 tag False key tag2 ekey obtain d3 where
        res: "res = Inr d3" and rec: "dictLoop L t d3 (storeField v i e) = (Inr r, v')"
        by (auto simp: dictLoop.psimps split: sum.splits)
      from "3.hyps"(3) [OF nt [symmetric] refl tag' False key nt2 [symmetric] refl tag2 ekey Some] um res
      have l3: "length d3 < length d2" by simp
      from "3.hyps"(4) [OF nt [symmetric] refl tag' False key nt2 [symmetric] refl tag2 ekey Some um [symmetric] res rec]
      have "length r < length d3" .
      with l3 lt lt2 show ?thesis by simp
    qed
  qed
next
  case (4 L t data v)
  obtain s tag rest where nt: "next_tag data = (s, tag, rest)"
    by (cases "next_tag data") auto
  from "4.prems" "4.hyps"(1) nt have tag: "length tag \<noteq> 0"
    by (auto simp: arrayLoop.psimps)
  with nt have lt: "length rest < length data"
    by (auto dest: next_tag_rest_shorter)
  show ?case
  proof (cases "tag = ''</array>''")
    case True
    with "4.prems" "4.hyps"(1) nt lt show ?thesis
      by (auto simp: arrayLoop.psimps)
  next
    case False
    let ?elem = "Elem (Value (New (elemType t)) Unaddressable)"
    obtain res e where um: "unmarshalValue L data ?elem = (res, e)"
      by (cases "unmarshalValue L data ?elem") auto
    with "4.prems" "4.hyps"(1) nt tag False obtain d' w where
      res: "res = Inr d'" and st: "Set v (Append v e) = Inr w"
      and rec: "arrayLoop L t d' w = (Inr r, v')"
      by (auto simp: arrayLoop.psimps split: sum.splits)
    from "4.hyps"(2) [OF nt [symmetric] refl tag False] um res
    have l1: "length d' < length data" by simp
    from "4.hyps"(3) [OF nt [symmetric] refl tag False um [symmetric] res st rec]
    have "length r < length d'" .
    with l1 show ?thesis by simp
  qed
qed

termination unmarshalValue
proof (relation "measure (\<lambda>x. case x of
          Inl (Inl (L, data, v)) \<Rightarrow> 3 * length data
        | Inl (Inr (L, tag, data, v)) \<Rightarrow> 3 * length data + 2
        | Inr (Inl (L, t, data, v)) \<Rightarrow> 3 * length data + 1
        | Inr (Inr (L, t, data, v)) \<Rightarrow> 3 * length data + 1)", goal_cases)
  case 1
  then show ?case by simp
next
  case (2 L data v x y xa ya b)
  then show ?case
    by (auto dest: next_tag_rest_shorter [OF sym])
next
  case (3 L data v x y xa ya)
  then show ?case
    by (auto dest: next_tag_rest_shorter [OF sym])
next
  case (4 L tag data v b)
  then show ?case by simp
next
  case (5 L tag data v b)
  then show ?case by simp
next
  case (6 L t data v x y xa ya xb yb xc yc b)
  then show ?case
    by (auto dest!: next_tag_rest_shorter [OF sym] skipValue_shorter)
next
  case (7 L t data v x y xa ya xb yb xc yc x2)
  then show ?case
    by (auto dest!: next_tag_rest_shorter [OF sym])
next
  case (8 L t data v x y xa ya xb yb xc yc x2 xd yd b)
  then show ?case
    by (auto dest!: next_tag_rest_shorter [OF sym] unmarshal_shorter_partial(1) [OF _ sym])
next
  case (9 L t data v x y xa ya)
  then show ?case by simp
next
  case (10 L t data v x y xa ya xb yb b ba)
  then show ?case
    by (auto dest!: unmarshal_shorter_partial(1) [OF _ sym])
qed

declare unmarshalValue.simps [simp del] unmarshalTag.simps [simp del]
  dictLoop.simps [simp del] arrayLoop.simps [simp del]

section \<open>The document decoder\<close>

text \<open>
  The loop at the head of \<open>Unmarshal\<close>: declarations are skipped up to the first other
  tag, which has to begin with \<open><plist\<close>. \<open>bytes.HasPrefix(tag, p)\<close> is \<open>prefix p tag\<close>.
\<close>

function headLoop :: "string \<Rightarrow> error + string" where
  "headLoop data =
     (case next_tag data of (_, tag, data') \<Rightarrow>
        if prefix ''<?xml'' tag \<or> prefix ''<!DOCTYPE'' tag then headLoop data'
        else if \<not> prefix ''<plist'' tag then Inl NotAPlist
        else Inr data')"
  by pat_completeness auto
termination
  by (relation "measure length") (auto dest: next_tag_rest_shorter [OF sym])

declare headLoop.simps [simp del]

text \<open>
  \<open>reflect.ValueOf(v)\<close> of the caller's \<open>v interface{}\<close> (\<open>None\<close> is \<open>nil\<close>) is not
  addressable. \<open>Interface\<close> reads the destination back.
\<close>

fun ValueOf :: "gval option \<Rightarrow> rvalue" where
  "ValueOf None = Invalid"
| "ValueOf (Some x) = Value x Unaddressable"

fun Interface :: "rvalue \<Rightarrow> gval option" where
  "Interface Invalid = None"
| "Interface (Value x f) = Some x"

text \<open>
  \<open>func Unmarshal(data []byte, v interface{}) error\<close>: the returned error (\<open>None\<close> is
  \<open>nil\<close>) and the destination as the call leaves it.
\<close>

definition Unmarshal :: "stdlib \<Rightarrow> string \<Rightarrow> gval option \<Rightarrow> error option \<times> gval option" where
  "Unmarshal L data v =
     (case headLoop data of
        Inl err \<Rightarrow> (Some err, v)
      | Inr data1 \<Rightarrow>
          (case unmarshalValue L data1 (ValueOf v) of
             (Inl err, w) \<Rightarrow> (Some err, Interface w)
           | (Inr data2, w) \<Rightarrow>
               (case next_tag data2 of (_, tag, data3) \<Rightarrow>
                  if tag \<noteq> ''</plist>'' then (Some JunkOnEnd, Interface w)
                  else (None, Interface w))))"

section \<open>A library instance for evaluation\<close>

text \<open>
  For evaluating the decoder on concrete documents: \<open>Atoi\<close> on a 64-bit platform (an
  optional sign and decimal digits, within the range of \<open>int\<close>), \<open>ParseFloat\<close> on a few
  literals that every precision represents exactly, and conversions of dates and
  base64 that accept nothing but the empty blob.
\<close>

fun decimal :: "nat \<Rightarrow> string \<Rightarrow> nat option" where
  "decimal n [] = Some n"
| "decimal n (c # cs) =
     (if (48::nat) \<le> of_char c \<and> of_char c \<le> (57::nat)
      then decimal (10 * n + (of_char c - 48)) cs else None)"

definition atoi64 :: "string \<Rightarrow> int option" where
  "atoi64 s =
     (let (neg, ds) = (case s of
                         [] \<Rightarrow> (False, [])
                       | c # cs \<Rightarrow> if c = CHR ''-'' then (True, cs)
                                   else if c = CHR ''+'' then (False, cs) else (False, s))
      in if ds = [] then None
         else (case decimal 0 ds of
                 None \<Rightarrow> None
               | Some n \<Rightarrow>
                   let i = (if neg then - int n else int n)
                   in if - (2 ^ 63) \<le> i \<and> i < 2 ^ 63 then Some i else None))"

definition floatLiterals :: "string \<Rightarrow> nat \<Rightarrow> 64 word option" where
  "floatLiterals s bits =
     (if s = ''0'' then Some 0
      else if s = ''0.5'' then Some 0x3FE0000000000000
      else if s = ''1.5'' then Some 0x3FF8000000000000
      else if s = ''2'' then Some 0x4000000000000000
      else None)"

definition exampleLib :: stdlib where
  "exampleLib =
     \<lparr> Atoi = atoi64,
       ParseFloat = floatLiterals,
       ParseTime = (\<lambda>s. None),
       DecodeString = (\<lambda>s. if s = [] then Some [] else None) \<rparr>"

section \<open>Documents\<close>

text \<open>
  The tokens of a span, as the scanner produces them one after the other, and the
  tokens that the head of \<open>Unmarshal\<close> skips: those that begin with the marker of a
  declaration or of a doctype.
\<close>

function tokens :: "string \<Rightarrow> string list" where
  "tokens data =
     (case next_tag data of (_, tag, rest) \<Rightarrow> if tag = [] then [] else tag # tokens rest)"
  by pat_completeness auto
termination
  by (relation "measure length") (auto dest: next_tag_rest_shorter [OF sym])

declare tokens.simps [simp del]

definition isDeclaration :: "string \<Rightarrow> bool" where
  "isDeclaration tag = (prefix ''<?xml'' tag \<or> prefix ''<!DOCTYPE'' tag)"

text \<open>
  The entries of an array that are not themselves arrays or mappings, with the text
  of their bodies; the text of such an entry in a document; and the value that the
  entry stands for, given the conversions of the library. An array is written as its
  entries, each after some text that is not markup (white space, as a rule).
\<close>

datatype entry =
    EString string | EInteger string | EReal string | EDate string | EData string
  | ETrue | EFalse

fun entryBody :: "entry \<Rightarrow> string" where
  "entryBody (EString b) = b"
| "entryBody (EInteger b) = b"
| "entryBody (EReal b) = b"
| "entryBody (EDate b) = b"
| "entryBody (EData b) = b"
| "entryBody ETrue = []"
| "entryBody EFalse = []"

fun entryText :: "entry \<Rightarrow> string" where
  "entryText (EString b) = ''<string>'' @ b @ ''</string>''"
| "entryText (EInteger b) = ''<integer>'' @ b @ ''</integer>''"
| "entryText (EReal b) = ''<real>'' @ b @ ''</real>''"
| "entryText (EDate b) = ''<date>'' @ b @ ''</date>''"
| "entryText (EData b) = ''<data>'' @ b @ ''</data>''"
| "entryText ETrue = ''<true/>''"
| "entryText EFalse = ''<false/>''"

fun entryValue :: "stdlib \<Rightarrow> entry \<Rightarrow> gval option" where
  "entryValue L (EString b) = Some (VString b)"
| "entryValue L (EInteger b) = map_option VInt (Atoi L b)"
| "entryValue L (EReal b) = map_option VFloat64 (ParseFloat L b 64)"
| "entryValue L (EDate b) = ParseTime L b"
| "entryValue L (EData b) = map_option (\<lambda>d. VSlice TUint8 (map VUint8 d)) (DecodeString L b)"
| "entryValue L ETrue = Some (VBool True)"
| "entryValue L EFalse = Some (VBool False)"

fun arrayText :: "(string \<times> entry) list \<Rightarrow> string" where
  "arrayText [] = []"
| "arrayText ((pad, e) # es) = pad @ entryText e @ arrayText es"

definition entryOk :: "stdlib \<Rightarrow> string \<times> entry \<Rightarrow> gval \<Rightarrow> bool" where
  "entryOk L pe x =
     (CHR ''<'' \<notin> set (fst pe) \<and> CHR ''<'' \<notin> set (entryBody (snd pe))
      \<and> entryValue L (snd pe) = Some x)"

text \<open>The opening tag of an entry and what follows it: \<open>entryText e = entryTag e @ entryRest e\<close>.\<close>

fun entryTag :: "entry \<Rightarrow> string" where
  "entryTag (EString b) = ''<string>''"
| "entryTag (EInteger b) = ''<integer>''"
| "entryTag (EReal b) = ''<real>''"
| "entryTag (EDate b) = ''<date>''"
| "entryTag (EData b) = ''<data>''"
| "entryTag ETrue = ''<true/>''"
| "entryTag EFalse = ''<false/>''"

fun entryRest :: "entry \<Rightarrow> string" where
  "entryRest (EString b) = b @ ''</string>''"
| "entryRest (EInteger b) = b @ ''</integer>''"
| "entryRest (EReal b) = b @ ''</real>''"
| "entryRest (EDate b) = b @ ''</date>''"
| "entryRest (EData b) = b @ ''</data>''"
| "entryRest ETrue = []"
| "entryRest EFalse = []"

text \<open>
  Markup in which every tag is closed by a tag of its own: an element is the text
  before its opening tag, its name, its children, and the text before its closing tag.
  Every value of a property list that contains no \<open><true/>\<close> and no \<open><false/>\<close> is of
  this form (the body of a string or of a key is the text before its closing tag).
  A mapping is written as its pairs: the text before the key, the key, and the
  element that is its value.
\<close>

datatype element = Element string string "element list" string

fun elementText :: "element \<Rightarrow> string" where
  "elementText (Element p name kids q) =
     p @ ''<'' @ name @ ''>'' @ concat (map elementText kids) @ q @ ''</'' @ name @ ''>''"

fun balanced :: "element \<Rightarrow> bool" where
  "balanced (Element p name kids q) =
     (CHR ''<'' \<notin> set p \<and> CHR ''<'' \<notin> set q \<and> CHR ''>'' \<notin> set name
      \<and> name \<noteq> [] \<and> hd name \<noteq> CHR ''/'' \<and> list_all balanced kids)"

fun dictText :: "(string \<times> string \<times> element) list \<Rightarrow> string" where
  "dictText [] = []"
| "dictText ((p, k, e) # es) = p @ ''<key>'' @ k @ ''</key>'' @ elementText e @ dictText es"

definition pairOk :: "string \<times> string \<times> element \<Rightarrow> bool" where
  "pairOk pke =
     (CHR ''<'' \<notin> set (fst pke) \<and> CHR ''<'' \<notin> set (fst (snd pke)) \<and> balanced (snd (snd pke)))"

section \<open>Properties of the tag scanner\<close>

lemma IndexByte_absent: "c \<notin> set s \<Longrightarrow> IndexByte s c = - 1"
  by (simp add: IndexByte_def)

lemma IndexByte_first: "c \<notin> set pre \<Longrightarrow> IndexByte (pre @ c # post) c = int (length pre)"
proof -
  assume "c \<notin> set pre"
  then have "takeWhile (\<lambda>x. x \<noteq> c) (pre @ c # post) = pre"
    by (induction pre) auto
  then show ?thesis
    by (simp add: IndexByte_def)
qed

lemma next_tag_exhausted:
  assumes "CHR ''>'' \<notin> set (dropWhile (\<lambda>c. c \<noteq> CHR ''<'') data)"
  shows "next_tag data = (data, [], [])"
proof (cases "CHR ''<'' \<in> set data")
  case False
  then show ?thesis
    by (simp add: next_tag_def IndexByte_absent)
next
  case True
  then have i: "IndexByte data (CHR ''<'') = int (length (takeWhile (\<lambda>c. c \<noteq> CHR ''<'') data))"
    by (simp add: IndexByte_def)
  have "drop (length (takeWhile (\<lambda>c. c \<noteq> CHR ''<'') data)) data
          = dropWhile (\<lambda>c. c \<noteq> CHR ''<'') data"
    by (simp add: dropWhile_eq_drop)
  with assms i show ?thesis
    by (simp add: next_tag_def Let_def IndexByte_absent)
qed

lemma next_tag_found:
  assumes pad: "CHR ''<'' \<notin> set pad" and body: "CHR ''>'' \<notin> set body"
  shows "next_tag (pad @ CHR ''<'' # body @ CHR ''>'' # rest) = (pad, CHR ''<'' # body @ ''>'', rest)"
proof -
  let ?data = "pad @ CHR ''<'' # body @ CHR ''>'' # rest"
  have i: "IndexByte ?data (CHR ''<'') = int (length pad)"
    using pad by (rule IndexByte_first)
  have "IndexByte ((CHR ''<'' # body) @ CHR ''>'' # rest) (CHR ''>'') = int (length (CHR ''<'' # body))"
    using body by (intro IndexByte_first) simp
  then have j: "IndexByte (drop (length pad) ?data) (CHR ''>'') = int (length body) + 1"
    by simp
  show ?thesis
    unfolding next_tag_def i Let_def nat_int j
    by (simp add: nat_add_distrib)
qed

text \<open>
  C10, as stated: a span that contains a \<open><\<close> with no \<open>>\<close> after it is returned whole,
  with an empty tag. This fails when an earlier \<open><\<close> has its \<open>>\<close>: in \<open><a><b\<close> the \<open><\<close>
  at index 3 is followed by no \<open>>\<close>, and the scanner returns the tag \<open><a>\<close>.
\<close>

theorem next_tag_truncated_counterexample:
  "''<a><b'' ! 3 = CHR ''<'' \<and> CHR ''>'' \<notin> set (drop 4 ''<a><b'')
   \<and> next_tag ''<a><b'' = ([], ''<a>'', ''<b'')"
  by code_simp

text \<open>
  C10, amended: when no \<open>>\<close> follows the first \<open><\<close> of the span, the scanner returns what
  it returns for a span without any \<open><\<close>, the whole span as content with an empty tag
  and an empty rest, and each caller reports its own end of input: the value decoder
  "unexpected end of data", the loops "eof inside <dict>" and "eof inside <array>", and
  \<open>skipValue\<close> "unexpected eof".
\<close>

theorem next_tag_truncated:
  assumes "CHR ''>'' \<notin> set (dropWhile (\<lambda>c. c \<noteq> CHR ''<'') data)"
  shows "next_tag data = (data, [], [])
    \<and> unmarshalValue L data v = (Inl UnexpectedEndOfData, v)
    \<and> dictLoop L t data v = (Inl (EofInside ''<dict>''), v)
    \<and> arrayLoop L t data v = (Inl (EofInside ''<array>''), v)
    \<and> skipValue data = Inl UnexpectedEof"
proof -
  from assms have nt: "next_tag data = (data, [], [])"
    by (rule next_tag_exhausted)
  then show ?thesis
    by (simp add: skipValue_def skipLoop.simps [of 0 data] unmarshalValue.simps [of L data v]
          dictLoop.simps [of L t data v] arrayLoop.simps [of L t data v])
qed

theorem next_tag_truncated_witness:
  "CHR ''>'' \<notin> set (dropWhile (\<lambda>c. c \<noteq> CHR ''<'') ''ab<cd'')
   \<and> next_tag ''ab<cd'' = (''ab<cd'', [], [])
   \<and> unmarshalValue exampleLib ''ab<cd'' Invalid = (Inl UnexpectedEndOfData, Invalid)
   \<and> skipValue ''ab<cd'' = Inl UnexpectedEof"
proof -
  have h: "CHR ''>'' \<notin> set (dropWhile (\<lambda>c. c \<noteq> CHR ''<'') ''ab<cd'')"
    by simp
  from next_tag_truncated [OF h, of exampleLib Invalid] h show ?thesis
    by simp
qed

section \<open>Skipping a value after an unmatched key\<close>

text \<open>
  C1 says that a \<open><true/>\<close> or \<open><false/>\<close> after an unmatched key is skipped as one token
  that leaves the counter alone. In \<open>skipValue\<close> every tag whose second byte is not \<open>/\<close>
  increments the counter, the self-closing ones too, so that the skip runs on to the
  closing tag that brings the counter back to zero: here the \<open></dict>\<close> of the enclosing
  mapping. The entry for the key \<open>A\<close> is swallowed with it and the decode fails at
  \<open></plist>\<close>, whereas the same document without the unmatched entry decodes.
\<close>

theorem skipValue_boolean_overrun:
  "skipValue ''<true/><key>A</key><integer>1</integer></dict></plist>'' = Inr ''</plist>''
   \<and> Unmarshal exampleLib
        ''<plist><dict><key>x</key><true/><key>A</key><integer>1</integer></dict></plist>''
        (Some (VPtr (TStruct ''S'' [(''A'', None, TInt)]) (Some (VStruct ''S'' [(''A'', None, VInt 0)]))))
      = (Some (UnexpectedTagInsideDict ''</plist>''),
         Some (VPtr (TStruct ''S'' [(''A'', None, TInt)]) (Some (VStruct ''S'' [(''A'', None, VInt 0)]))))
   \<and> Unmarshal exampleLib
        ''<plist><dict><key>A</key><integer>1</integer></dict></plist>''
        (Some (VPtr (TStruct ''S'' [(''A'', None, TInt)]) (Some (VStruct ''S'' [(''A'', None, VInt 0)]))))
      = (None,
         Some (VPtr (TStruct ''S'' [(''A'', None, TInt)]) (Some (VStruct ''S'' [(''A'', None, VInt 1)]))))"
  by code_simp

text \<open>
  C2 says that any well-formed mapping decodes into a struct without fields. A mapping
  with a boolean value does not: the skip of \<open><true/>\<close> consumes the \<open></dict>\<close> as well.
\<close>

theorem Unmarshal_empty_struct_boolean:
  "Unmarshal exampleLib ''<plist><dict><key>a</key><true/></dict></plist>''
      (Some (VPtr (TStruct [] []) (Some (VStruct [] []))))
   = (Some (UnexpectedTagInsideDict ''</plist>''),
      Some (VPtr (TStruct [] []) (Some (VStruct [] []))))"
  by code_simp

section \<open>Dispatch on the tag\<close>

text \<open>
  C3, as stated: a \<open><dict>\<close> is accepted by a struct and by an \<open>interface{}\<close>. The guard of
  the source is \<open>v.Kind() != reflect.Struct\<close>, which refuses the \<open>interface{}\<close>.
\<close>

theorem dict_into_dynamic_counterexample:
  "unmarshalValue exampleLib ''<dict></dict>'' (Value (VInterface None) Settable)
   = (Inl (DictIntoNonStruct TInterface), Value (VInterface None) Settable)"
  by code_simp

text \<open>
  C3, amended: for a destination that is not the zero \<open>Value\<close>, once a pointer has
  been followed (and allocated when \<open>nil\<close>), a \<open><dict>\<close> enters the loop over the keys
  exactly when the destination is of struct kind; for every other kind, that of
  \<open>interface{}\<close> included, the result is the error "cannot unmarshal <dict> into
  non-struct" with the type of the destination, which is left as it is.
\<close>

theorem dict_dispatch:
  assumes nt: "next_tag data = (s, ''<dict>'', rest)"
  shows "(Kind v \<noteq> KPtr \<and> Type v = Inr t \<longrightarrow>
            unmarshalValue L data v =
              (if Kind v = KStruct then dictLoop L t rest v
               else (Inl (DictIntoNonStruct t), v)))
       \<and> (Kind v = KPtr \<and> indirect v = Inr p \<and> Type (Elem p) = Inr t \<longrightarrow>
            unmarshalValue L data v =
              (if Kind (Elem p) = KStruct
               then (case dictLoop L t rest (Elem p) of (r, e) \<Rightarrow> (r, storeElem p e))
               else (Inl (DictIntoNonStruct t), storeElem p (Elem p))))"
  using nt by (simp add: unmarshalValue.simps [of L data v] unmarshalTag.simps split: prod.splits)

theorem dict_dispatch_witness:
  "next_tag ''<dict></dict>'' = ([], ''<dict>'', ''</dict>'')
   \<and> unmarshalValue exampleLib ''<dict></dict>'' (Value (VStruct ''S'' []) Settable)
       = dictLoop exampleLib (TStruct ''S'' []) ''</dict>'' (Value (VStruct ''S'' []) Settable)
   \<and> unmarshalValue exampleLib ''<dict></dict>'' (Value (VOther ''map[string]int'' 0) Settable)
       = (Inl (DictIntoNonStruct (TOther ''map[string]int'')), Value (VOther ''map[string]int'' 0) Settable)
   \<and> unmarshalValue exampleLib ''<dict></dict>'' (Value (VPtr TInt None) Settable)
       = (Inl (DictIntoNonStruct TInt), Value (VPtr TInt (Some (VInt 0))) Settable)"
proof -
  have h: "next_tag ''<dict></dict>'' = ([], ''<dict>'', ''</dict>'')"
    by code_simp
  have i: "indirect (Value (VPtr TInt None) Settable) = Inr (Value (VPtr TInt (Some (VInt 0))) Settable)"
    by (simp add: indirect_def)
  from h i
    dict_dispatch [OF h, of "Value (VStruct ''S'' []) Settable" "TStruct ''S'' []" exampleLib]
    dict_dispatch [OF h, of "Value (VOther ''map[string]int'' 0) Settable" "TOther ''map[string]int''" exampleLib]
    dict_dispatch [OF h, of "Value (VPtr TInt None) Settable" TInt exampleLib
                      "Value (VPtr TInt (Some (VInt 0))) Settable"]
  show ?thesis
    by simp
qed

text \<open>
  C4, as stated: an \<open><array>\<close> is accepted by a slice and by an \<open>interface{}\<close>. The guard of
  the source is \<open>v.Kind() != reflect.Slice\<close>, which refuses the \<open>interface{}\<close>.
\<close>

theorem array_into_dynamic_counterexample:
  "unmarshalValue exampleLib ''<array></array>'' (Value (VInterface None) Settable)
   = (Inl (ArrayIntoNonSlice TInterface), Value (VInterface None) Settable)"
  by code_simp

text \<open>
  C4, amended: for a destination that is not the zero \<open>Value\<close>, once a pointer has
  been followed, an \<open><array>\<close> enters the loop over the elements exactly when the
  destination is of slice kind; for every other kind, that of \<open>interface{}\<close> included,
  the result is the error "cannot unmarshal <array> into non-slice" with the type of
  the destination.
\<close>

theorem array_dispatch:
  assumes nt: "next_tag data = (s, ''<array>'', rest)"
  shows "(Kind v \<noteq> KPtr \<and> Type v = Inr t \<longrightarrow>
            unmarshalValue L data v =
              (if Kind v = KSlice then arrayLoop L t rest v
               else (Inl (ArrayIntoNonSlice t), v)))
       \<and> (Kind v = KPtr \<and> indirect v = Inr p \<and> Type (Elem p) = Inr t \<longrightarrow>
            unmarshalValue L data v =
              (if Kind (Elem p) = KSlice
               then (case arrayLoop L t rest (Elem p) of (r, e) \<Rightarrow> (r, storeElem p e))
               else (Inl (ArrayIntoNonSlice t), storeElem p (Elem p))))"
  using nt by (simp add: unmarshalValue.simps [of L data v] unmarshalTag.simps split: prod.splits)

theorem array_dispatch_witness:
  "next_tag ''<array></array>'' = ([], ''<array>'', ''</array>'')
   \<and> unmarshalValue exampleLib ''<array></array>'' (Value (VSlice TString []) Settable)
       = arrayLoop exampleLib (TSlice TString) ''</array>'' (Value (VSlice TString []) Settable)
   \<and> unmarshalValue exampleLib ''<array></array>'' (Value (VStruct ''S'' []) Settable)
       = (Inl (ArrayIntoNonSlice (TStruct ''S'' [])), Value (VStruct ''S'' []) Settable)
   \<and> unmarshalValue exampleLib ''<array></array>'' (Value (VPtr TInt None) Settable)
       = (Inl (ArrayIntoNonSlice TInt), Value (VPtr TInt (Some (VInt 0))) Settable)"
proof -
  have h: "next_tag ''<array></array>'' = ([], ''<array>'', ''</array>'')"
    by code_simp
  have i: "indirect (Value (VPtr TInt None) Settable) = Inr (Value (VPtr TInt (Some (VInt 0))) Settable)"
    by (simp add: indirect_def)
  from h i
    array_dispatch [OF h, of "Value (VSlice TString []) Settable" "TSlice TString" exampleLib]
    array_dispatch [OF h, of "Value (VStruct ''S'' []) Settable" "TStruct ''S'' []" exampleLib]
    array_dispatch [OF h, of "Value (VPtr TInt None) Settable" TInt exampleLib
                      "Value (VPtr TInt (Some (VInt 0))) Settable"]
  show ?thesis
    by simp
qed

section \<open>Matching a key to a field\<close>

text \<open>
  The loop over the fields returns the first index, in declaration order, of a field
  whose name or whose \<open>plist\<close> tag value equals the key, and \<open>None\<close> when there is none.
\<close>

lemma fieldLoop_Some:
  "fieldLoop fs name k = Some i \<Longrightarrow>
     k \<le> i \<and> i < length fs
     \<and> (fst (fs ! i) = name \<or> TagGet (fst (snd (fs ! i))) = name)
     \<and> (\<forall>j. k \<le> j \<and> j < i \<longrightarrow> fst (fs ! j) \<noteq> name \<and> TagGet (fst (snd (fs ! j))) \<noteq> name)"
proof (induction fs name k rule: fieldLoop.induct)
  case (1 fs name k)
  show ?case
  proof (cases "k < length fs")
    case False
    with "1.prems" show ?thesis by (simp add: fieldLoop.simps [of fs name k])
  next
    case True
    obtain fname tg t where f: "fs ! k = (fname, tg, t)"
      by (cases "fs ! k") auto
    show ?thesis
    proof (cases "fname = name \<or> TagGet tg = name")
      case hit: True
      with "1.prems" True f have "i = k" by (auto simp: fieldLoop.simps [of fs name k])
      with hit True f show ?thesis by auto
    next
      case miss: False
      with "1.prems" True f have rec: "fieldLoop fs name (k + 1) = Some i"
        by (simp add: fieldLoop.simps [of fs name k])
      from "1.IH" [OF True f [symmetric] refl miss rec]
      have ih: "k + 1 \<le> i \<and> i < length fs
        \<and> (fst (fs ! i) = name \<or> TagGet (fst (snd (fs ! i))) = name)
        \<and> (\<forall>j. k + 1 \<le> j \<and> j < i \<longrightarrow> fst (fs ! j) \<noteq> name \<and> TagGet (fst (snd (fs ! j))) \<noteq> name)" .
      have "fst (fs ! j) \<noteq> name \<and> TagGet (fst (snd (fs ! j))) \<noteq> name" if "k \<le> j" "j < i" for j
      proof (cases "j = k")
        case True
        with miss f show ?thesis by simp
      next
        case False
        with that ih show ?thesis by simp
      qed
      with ih show ?thesis by simp
    qed
  qed
qed

lemma fieldLoop_None:
  "fieldLoop fs name k = None \<Longrightarrow> k \<le> j \<Longrightarrow> j < length fs \<Longrightarrow>
     fst (fs ! j) \<noteq> name \<and> TagGet (fst (snd (fs ! j))) \<noteq> name"
proof (induction fs name k rule: fieldLoop.induct)
  case (1 fs name k)
  from "1.prems" have k: "k < length fs" by simp
  obtain fname tg t where f: "fs ! k = (fname, tg, t)"
    by (cases "fs ! k") auto
  from "1.prems"(1) k f have miss: "\<not> (fname = name \<or> TagGet tg = name)"
    and rec: "fieldLoop fs name (k + 1) = None"
    by (auto simp: fieldLoop.simps [of fs name k] split: if_splits)
  show ?case
  proof (cases "j = k")
    case True
    with miss f show ?thesis by simp
  next
    case False
    with "1.prems" have "k + 1 \<le> j" by simp
    from "1.IH" [OF k f [symmetric] refl miss rec this "1.prems"(3)] show ?thesis .
  qed
qed

text \<open>
  C6 says that a key is bound to the first field whose name or whose override name
  equals it, and is skipped when no field matches. For a field without a \<open>plist\<close> tag
  the source compares the key with \<open>f.Tag.Get("plist")\<close>, the empty string: an empty
  key is bound to the first field without a tag, here \<open>A\<close>, which declares no override
  name and is not named by the key.
\<close>

theorem Unmarshal_empty_key_binds:
  "Unmarshal exampleLib ''<plist><dict><key></key><integer>7</integer></dict></plist>''
      (Some (VPtr (TStruct ''S'' [(''A'', None, TInt)]) (Some (VStruct ''S'' [(''A'', None, VInt 0)]))))
   = (None,
      Some (VPtr (TStruct ''S'' [(''A'', None, TInt)]) (Some (VStruct ''S'' [(''A'', None, VInt 7)]))))"
  by code_simp

section \<open>Reals\<close>

text \<open>
  The \<open><real>\<close> case once the body and its closing tag have been read: the body is
  parsed with 32 bits exactly for a destination of kind \<open>Float32\<close>; the result is
  stored in a \<open>float64\<close> and in an \<open>interface{}\<close>, the assignment to a \<open>float32\<close>
  panics, and a body that does not parse gives the error with the body.
\<close>

lemma real_into_float32:
  assumes "next_tag data = (body, ''</real>'', rest)" and "ParseFloat L body 32 = Some f"
  shows "unmarshalScalar L ''<real>'' data (Value (VFloat32 w) Settable)
           = (Inl (Panic (NotAssignable TFloat64 TFloat32)), Value (VFloat32 w) Settable)"
  using assms by (simp add: unmarshalScalar_def setTo_def)

lemma real_into_float64:
  assumes "next_tag data = (body, ''</real>'', rest)" and "ParseFloat L body 64 = Some f"
  shows "unmarshalScalar L ''<real>'' data (Value (VFloat64 w) Settable)
           = (Inr rest, Value (VFloat64 f) Settable)"
    and "unmarshalScalar L ''<real>'' data (Value (VInterface y) Settable)
           = (Inr rest, Value (VInterface (Some (VFloat64 f))) Settable)"
  using assms by (simp_all add: unmarshalScalar_def setTo_def)

lemma real_not_parsed:
  assumes "next_tag data = (body, ''</real>'', rest)"
    and "ParseFloat L body (if Kind v = KFloat32 then 32 else 64) = None"
  shows "unmarshalScalar L ''<real>'' data v = (Inl (NonFloat body), v)"
  using assms by (simp add: unmarshalScalar_def)

text \<open>
  C8 says that for a destination of 32-bit width the number parsed with 32 bits is
  stored. The source parses with \<open>bits = 32\<close>, and then passes the \<open>float64\<close> that
  \<open>ParseFloat\<close> returns to \<open>Set\<close>, which panics: a \<open>float64\<close> is not assignable to a
  \<open>float32\<close>.
\<close>

theorem Unmarshal_real_float32_panics:
  "Unmarshal exampleLib ''<plist><real>1.5</real></plist>'' (Some (VPtr TFloat32 (Some (VFloat32 0))))
   = (Some (Panic (NotAssignable TFloat64 TFloat32)), Some (VPtr TFloat32 (Some (VFloat32 0))))"
  by code_simp

section \<open>The envelope of the document\<close>

lemma headLoop_not_plist:
  "find (\<lambda>t. \<not> isDeclaration t) (tokens data) = Some t \<Longrightarrow> \<not> prefix ''<plist'' t \<Longrightarrow>
     headLoop data = Inl NotAPlist"
proof (induction data rule: headLoop.induct)
  case (1 data)
  obtain s tag rest where nt: "next_tag data = (s, tag, rest)"
    by (cases "next_tag data") auto
  note unf = tokens.simps [of data] headLoop.simps [of data]
  from "1.prems"(1) nt have tag: "tag \<noteq> []"
    by (auto simp: unf split: if_splits)
  show ?case
  proof (cases "isDeclaration tag")
    case True
    with "1.prems"(1) nt tag have "find (\<lambda>t. \<not> isDeclaration t) (tokens rest) = Some t"
      by (simp add: unf)
    from "1.IH" [OF nt [symmetric] refl _ this "1.prems"(2)] True nt show ?thesis
      by (simp add: isDeclaration_def unf)
  next
    case False
    with "1.prems"(1) nt tag have "t = tag" by (simp add: unf)
    with False "1.prems"(2) nt show ?thesis
      by (simp add: isDeclaration_def unf)
  qed
qed

lemma headLoop_no_token:
  "find (\<lambda>t. \<not> isDeclaration t) (tokens data) = None \<Longrightarrow> headLoop data = Inl NotAPlist"
proof (induction data rule: headLoop.induct)
  case (1 data)
  note unf = tokens.simps [of data] headLoop.simps [of data]
  obtain s tag rest where nt: "next_tag data = (s, tag, rest)"
    by (cases "next_tag data") auto
  show ?case
  proof (cases "tag = []")
    case True
    with nt show ?thesis by (simp add: unf)
  next
    case False
    with "1.prems" nt have d: "isDeclaration tag"
      and r: "find (\<lambda>t. \<not> isDeclaration t) (tokens rest) = None"
      by (auto simp: unf split: if_splits)
    from "1.IH" [OF nt [symmetric] refl _ r] d nt show ?thesis
      by (simp add: isDeclaration_def unf)
  qed
qed

text \<open>
  C9: when the first token that is neither a declaration nor a doctype does not begin
  with \<open><plist\<close>, \<open>Unmarshal\<close> returns "not a plist" and the destination is what it was,
  whatever the library and the destination are: the value decoder is not entered.
\<close>

theorem Unmarshal_not_a_plist:
  assumes "find (\<lambda>t. \<not> isDeclaration t) (tokens data) = Some t" and "\<not> prefix ''<plist'' t"
  shows "Unmarshal L data v = (Some NotAPlist, v)"
  using headLoop_not_plist [OF assms] by (simp add: Unmarshal_def)

theorem Unmarshal_not_a_plist_witness:
  "find (\<lambda>t. \<not> isDeclaration t) (tokens ''<?xml version=\"1.0\"?> <dict></dict>'') = Some ''<dict>''
   \<and> \<not> prefix ''<plist'' ''<dict>''
   \<and> Unmarshal exampleLib ''<?xml version=\"1.0\"?> <dict></dict>'' (Some (VPtr (TStruct [] []) None))
       = (Some NotAPlist, Some (VPtr (TStruct [] []) None))"
proof -
  have f: "find (\<lambda>t. \<not> isDeclaration t) (tokens ''<?xml version=\"1.0\"?> <dict></dict>'') = Some ''<dict>''"
    by code_simp
  have p: "\<not> prefix ''<plist'' ''<dict>''"
    by simp
  from f p Unmarshal_not_a_plist [OF f p, of exampleLib "Some (VPtr (TStruct [] []) None)"]
  show ?thesis by simp
qed

section \<open>Bytes after a decoded value\<close>

text \<open>
  A call that succeeds has found every tag it asked for, so that bytes appended to
  the data are never looked at: they are appended to the rest.
\<close>

lemma IndexByte_append: "0 \<le> IndexByte d c \<Longrightarrow> IndexByte (d @ x) c = IndexByte d c"
proof -
  assume "0 \<le> IndexByte d c"
  then have c: "c \<in> set d"
    by (simp add: IndexByte_def split: if_splits)
  then have "takeWhile (\<lambda>y. y \<noteq> c) (d @ x) = takeWhile (\<lambda>y. y \<noteq> c) d"
    by (intro takeWhile_append1) auto
  with c show ?thesis
    by (simp add: IndexByte_def)
qed

lemma next_tag_append:
  assumes nt: "next_tag d = (s, tag, r)" and tag: "tag \<noteq> []"
  shows "next_tag (d @ x) = (s, tag, r @ x)"
proof -
  let ?i = "IndexByte d (CHR ''<'')"
  let ?j = "IndexByte (drop (nat ?i) d) (CHR ''>'')"
  from nt tag have i: "0 \<le> ?i" and j: "0 \<le> ?j"
    by (auto simp: next_tag_def Let_def split: if_splits)
  from IndexByte_less [OF i] have il: "nat ?i < length d" .
  from IndexByte_less [OF j] have jl: "nat ?j < length d - nat ?i"
    by simp
  have i': "IndexByte (d @ x) (CHR ''<'') = ?i"
    using i by (rule IndexByte_append)
  have dr: "drop (nat ?i) (d @ x) = drop (nat ?i) d @ x"
    using il by simp
  have j': "IndexByte (drop (nat ?i) d @ x) (CHR ''>'') = ?j"
    using j by (rule IndexByte_append)
  from i j il jl have le: "nat (?j + ?i + 1) \<le> length d"
    by (simp add: nat_add_distrib)
  from nt i j have res: "s = take (nat ?i) d"
    "tag = drop (nat ?i) (take (nat (?j + ?i + 1)) d)" "r = drop (nat (?j + ?i + 1)) d"
    by (auto simp: next_tag_def Let_def split: if_splits)
  show ?thesis
    unfolding next_tag_def i' Let_def dr j' res
    using i j il le by simp
qed

lemma skipLoop_append: "skipLoop n d = Inr r \<Longrightarrow> skipLoop n (d @ x) = Inr (r @ x)"
proof (induction n d arbitrary: r rule: skipLoop.induct)
  case (1 n data)
  obtain s tag d' where nt: "next_tag data = (s, tag, d')"
    by (cases "next_tag data") auto
  note unf = skipLoop.simps [of n data]
  from "1.prems" nt have tag: "tag \<noteq> []"
    by (auto simp: unf split: if_splits)
  from nt tag have nt': "next_tag (data @ x) = (s, tag, d' @ x)"
    by (rule next_tag_append)
  from "1.prems" nt tag have l2: "\<not> length tag < 2"
    by (auto simp: unf split: if_splits)
  from tag have l0: "\<not> length tag = 0" by simp
  show ?case
  proof (cases "tag ! 1 = CHR ''/''")
    case True
    show ?thesis
    proof (cases "n - 1 = 0")
      case zero: True
      with "1.prems" nt nt' tag l2 True show ?thesis
        by (subst skipLoop.simps) (auto simp: unf split: if_splits)
    next
      case False
      then have n0: "n \<noteq> 0" by simp
      from "1.prems" nt tag l2 True False n0 have rec: "skipLoop (n - 1) d' = Inr r"
        by (auto simp: unf split: if_splits)
      from "1.IH"(1) [OF nt [symmetric] refl l0 l2 True n0 False rec]
      have "skipLoop (n - 1) (d' @ x) = Inr (r @ x)" .
      with nt' tag l2 True False n0 show ?thesis
        by (subst skipLoop.simps) simp
    qed
  next
    case False
    from "1.prems" nt tag l2 False have rec: "skipLoop (n + 1) d' = Inr r"
      by (auto simp: unf split: if_splits)
    from "1.IH"(2) [OF nt [symmetric] refl l0 l2 False rec]
    have "skipLoop (n + 1) (d' @ x) = Inr (r @ x)" .
    with nt' tag l2 False show ?thesis
      by (subst skipLoop.simps) simp
  qed
qed

lemma skipValue_append: "skipValue d = Inr r \<Longrightarrow> skipValue (d @ x) = Inr (r @ x)"
  unfolding skipValue_def by (rule skipLoop_append)

lemma headLoop_append: "headLoop d = Inr r \<Longrightarrow> headLoop (d @ x) = Inr (r @ x)"
proof (induction d rule: headLoop.induct)
  case (1 data)
  obtain s tag d' where nt: "next_tag data = (s, tag, d')"
    by (cases "next_tag data") auto
  note unf = headLoop.simps [of data]
  from "1.prems" nt have tag: "tag \<noteq> []"
    by (auto simp: unf split: if_splits)
  from nt tag have nt': "next_tag (data @ x) = (s, tag, d' @ x)"
    by (rule next_tag_append)
  show ?case
  proof (cases "prefix ''<?xml'' tag \<or> prefix ''<!DOCTYPE'' tag")
    case True
    with "1.prems" nt have rec: "headLoop d' = Inr r"
      by (auto simp: unf split: if_splits)
    from "1.IH" [OF nt [symmetric] refl True rec] nt' True show ?thesis
      by (subst headLoop.simps) simp
  next
    case False
    with "1.prems" nt nt' show ?thesis
      by (subst headLoop.simps) (auto simp: unf split: if_splits)
  qed
qed

lemma setTo_append: "setTo v y d = (Inr r, w) \<Longrightarrow> setTo v y (d @ x) = (Inr (r @ x), w)"
  by (auto simp: setTo_def split: sum.splits)

lemma unmarshalScalar_append:
  assumes "unmarshalScalar L tag d v = (Inr r, w)"
  shows "unmarshalScalar L tag (d @ x) v = (Inr (r @ x), w)"
proof -
  obtain body etag d' where nt: "next_tag d = (body, etag, d')"
    by (cases "next_tag d") auto
  show ?thesis
  proof (cases "tag = ''<true/>'' \<or> tag = ''<false/>''")
    case True
    with assms show ?thesis
      by (auto simp: unmarshalScalar_def dest: setTo_append)
  next
    case False
    with assms nt have etag: "etag \<noteq> []"
      by (auto simp: unmarshalScalar_def Let_def split: if_splits)
    with nt have nt': "next_tag (d @ x) = (body, etag, d' @ x)"
      by (rule next_tag_append)
    from assms nt nt' etag False show ?thesis
      by (auto simp: unmarshalScalar_def Let_def split: if_splits option.splits dest: setTo_append)
  qed
qed

lemma unmarshal_append:
  "(\<And>r w. unmarshalValue L data v = (Inr r, w) \<Longrightarrow>
      unmarshalValue L (data @ x) v = (Inr (r @ x), w))"
  "(\<And>r w. unmarshalTag L tag data v = (Inr r, w) \<Longrightarrow>
      unmarshalTag L tag (data @ x) v = (Inr (r @ x), w))"
  "(\<And>r w. dictLoop L t data v = (Inr r, w) \<Longrightarrow>
      dictLoop L t (data @ x) v = (Inr (r @ x), w))"
  "(\<And>r w. arrayLoop L t data v = (Inr r, w) \<Longrightarrow>
      arrayLoop L t (data @ x) v = (Inr (r @ x), w))"
proof (induct L data v and L tag data v and L t data v and L t data v
       rule: unmarshalValue_unmarshalTag_dictLoop_arrayLoop.induct)
  case (1 L data v)
  note unf = unmarshalValue.simps [of L data v]
  obtain s tag d where nt: "next_tag data = (s, tag, d)"
    by (cases "next_tag data") auto
  from "1.prems" nt have tag: "tag \<noteq> []"
    by (auto simp: unf split: if_splits)
  from nt tag have nt': "next_tag (data @ x) = (s, tag, d @ x)"
    by (rule next_tag_append)
  show ?case
  proof (cases "Kind v = KPtr")
    case True
    with "1.prems" nt tag obtain p e where
      p: "indirect v = Inr p" and e: "unmarshalTag L tag d (Elem p) = (Inr r, e)"
      and w: "w = storeElem p e"
      by (auto simp: unf split: sum.splits prod.splits)
    from "1.hyps"(1) [OF nt [symmetric] refl tag True p e]
    have "unmarshalTag L tag (d @ x) (Elem p) = (Inr (r @ x), e)" .
    with nt' tag True p w show ?thesis
      by (subst unmarshalValue.simps) simp
  next
    case False
    with "1.prems" nt tag have e: "unmarshalTag L tag d v = (Inr r, w)"
      by (auto simp: unf)
    from "1.hyps"(2) [OF nt [symmetric] refl tag False e]
    have "unmarshalTag L tag (d @ x) v = (Inr (r @ x), w)" .
    with nt' tag False show ?thesis
      by (subst unmarshalValue.simps) simp
  qed
next
  case (2 L tag data v)
  consider (dict) "tag = ''<dict>''" | (array) "tag \<noteq> ''<dict>''" "tag = ''<array>''"
    | (scalar) "tag \<noteq> ''<dict>''" "tag \<noteq> ''<array>''"
    by blast
  then show ?case
  proof cases
    case dict
    with "2.prems" obtain t where
      t: "Type v = Inr t" and k: "\<not> Kind v \<noteq> KStruct" and d: "dictLoop L t data v = (Inr r, w)"
      by (auto simp: unmarshalTag.simps split: sum.splits if_splits)
    from "2.hyps"(1) [OF dict t k d] dict t k show ?thesis
      by (subst unmarshalTag.simps) simp
  next
    case array
    with "2.prems" obtain t where
      t: "Type v = Inr t" and k: "\<not> Kind v \<noteq> KSlice" and d: "arrayLoop L t data v = (Inr r, w)"
      by (auto simp: unmarshalTag.simps split: sum.splits if_splits)
    from "2.hyps"(2) [OF array t k d] array t k show ?thesis
      by (subst unmarshalTag.simps) simp
  next
    case scalar
    with "2.prems" have "unmarshalScalar L tag data v = (Inr r, w)"
      by (simp add: unmarshalTag.simps)
    from unmarshalScalar_append [OF this] scalar show ?thesis
      by (subst unmarshalTag.simps) simp
  qed
next
  case (3 L t data v)
  note unf = dictLoop.simps [of L t data v]
  obtain s tag d1 where nt: "next_tag data = (s, tag, d1)"
    by (cases "next_tag data") auto
  obtain body tag2 d2 where nt2: "next_tag d1 = (body, tag2, d2)"
    by (cases "next_tag d1") auto
  from "3.prems" nt have tag: "tag \<noteq> []"
    by (auto simp: unf split: if_splits)
  then have tag': "length tag \<noteq> 0" by simp
  from nt tag have nt': "next_tag (data @ x) = (s, tag, d1 @ x)"
    by (rule next_tag_append)
  show ?case
  proof (cases "tag = ''</dict>''")
    case True
    with "3.prems" nt nt' show ?thesis
      by (subst dictLoop.simps) (auto simp: unf)
  next
    case False
    with "3.prems" nt nt2 tag have key: "\<not> tag \<noteq> ''<key>''"
      and tag2: "length tag2 \<noteq> 0" and ekey: "\<not> tag2 \<noteq> ''</key>''"
      by (auto simp: unf split: if_splits)
    from nt2 tag2 have nt2': "next_tag (d1 @ x) = (body, tag2, d2 @ x)"
      by (intro next_tag_append) auto
    show ?thesis
    proof (cases "fieldLoop (structFields t) body 0")
      case None
      with "3.prems" nt nt2 tag False key tag2 ekey obtain d3 where
        sk: "skipValue d2 = Inr d3" and rec: "dictLoop L t d3 v = (Inr r, w)"
        by (auto simp: unf split: sum.splits)
      from "3.hyps"(1) [OF nt [symmetric] refl tag' False key nt2 [symmetric] refl tag2 ekey None sk rec]
      have "dictLoop L t (d3 @ x) v = (Inr (r @ x), w)" .
      with skipValue_append [OF sk, of x] nt' nt2' tag False key tag2 ekey None show ?thesis
        by (subst dictLoop.simps) simp
    next
      case (Some i)
      obtain res e where um: "unmarshalValue L d2 (Field_v v i) = (res, e)"
        by (cases "unmarshalValue L d2 (Field_v v i)") auto
      with Some "3.prems" nt nt2 tag False key tag2 ekey obtain d3 where
        res: "res = Inr d3" and rec: "dictLoop L t d3 (storeField v i e) = (Inr r, w)"
        by (auto simp: unf split: sum.splits)
      from "3.hyps"(2) [OF nt [symmetric] refl tag' False key nt2 [symmetric] refl tag2 ekey Some] um res
      have um': "unmarshalValue L (d2 @ x) (Field_v v i) = (Inr (d3 @ x), e)" by simp
      from "3.hyps"(3) [OF nt [symmetric] refl tag' False key nt2 [symmetric] refl tag2 ekey Some um [symmetric] res rec]
      have "dictLoop L t (d3 @ x) (storeField v i e) = (Inr (r @ x), w)" .
      with um' nt' nt2' tag False key tag2 ekey Some show ?thesis
        by (subst dictLoop.simps) simp
    qed
  qed
next
  case (4 L t data v)
  note unf = arrayLoop.simps [of L t data v]
  obtain s tag rest where nt: "next_tag data = (s, tag, rest)"
    by (cases "next_tag data") auto
  from "4.prems" nt have tag: "length tag \<noteq> 0"
    by (auto simp: unf split: if_splits)
  with nt have nt': "next_tag (data @ x) = (s, tag, rest @ x)"
    by (intro next_tag_append) auto
  show ?case
  proof (cases "tag = ''</array>''")
    case True
    with "4.prems" nt nt' show ?thesis
      by (subst arrayLoop.simps) (auto simp: unf)
  next
    case False
    let ?elem = "Elem (Value (New (elemType t)) Unaddressable)"
    obtain res e where um: "unmarshalValue L data ?elem = (res, e)"
      by (cases "unmarshalValue L data ?elem") auto
    with "4.prems" nt tag False obtain d' u where
      res: "res = Inr d'" and st: "Set v (Append v e) = Inr u"
      and rec: "arrayLoop L t d' u = (Inr r, w)"
      by (auto simp: unf split: sum.splits)
    from "4.hyps"(1) [OF nt [symmetric] refl tag False] um res
    have um': "unmarshalValue L (data @ x) ?elem = (Inr (d' @ x), e)" by simp
    from "4.hyps"(2) [OF nt [symmetric] refl tag False um [symmetric] res st rec]
    have "arrayLoop L t (d' @ x) u = (Inr (r @ x), w)" .
    with um' st nt' tag False show ?thesis
      by (subst arrayLoop.simps) simp
  qed
qed

text \<open>
  C5, as stated: content after the closing tag of the root makes the decode fail. The
  source checks the one token that follows the value and nothing after it.
\<close>

theorem Unmarshal_trailing_counterexample:
  "Unmarshal exampleLib ''<plist><true/></plist>junk'' (Some (VPtr TBool (Some (VBool False))))
   = (None, Some (VPtr TBool (Some (VBool True))))"
  by code_simp

text \<open>
  C5, amended: a decode that succeeds has found a token that begins with \<open><plist\<close>, has
  decoded one value after it, and has found \<open></plist>\<close> as the next token after that
  value; whatever follows is not examined: with any bytes appended the result is the
  same. When the token after the value is another one, or is missing, the decode fails
  with "junk on end of plist".
\<close>

theorem Unmarshal_success:
  "(fst (Unmarshal L data v) = None \<longrightarrow>
      (\<exists>d r w s rest. headLoop data = Inr d \<and> unmarshalValue L d (ValueOf v) = (Inr r, w)
          \<and> next_tag r = (s, ''</plist>'', rest))
      \<and> Unmarshal L (data @ extra) v = Unmarshal L data v)
   \<and> (headLoop data = Inr d \<and> unmarshalValue L d (ValueOf v) = (Inr r, w)
        \<and> fst (snd (next_tag r)) \<noteq> ''</plist>'' \<longrightarrow>
      Unmarshal L data v = (Some JunkOnEnd, Interface w))"
proof (intro conjI impI)
  assume ok: "fst (Unmarshal L data v) = None"
  then obtain d where d: "headLoop data = Inr d"
    by (auto simp: Unmarshal_def split: sum.splits)
  obtain res w where um: "unmarshalValue L d (ValueOf v) = (res, w)"
    by (cases "unmarshalValue L d (ValueOf v)") auto
  with ok d obtain r where r: "res = Inr r"
    by (auto simp: Unmarshal_def split: sum.splits)
  obtain s tag rest where nt: "next_tag r = (s, tag, rest)"
    by (cases "next_tag r") auto
  with ok d um r have tag: "tag = ''</plist>''"
    by (auto simp: Unmarshal_def split: if_splits)
  from d um r nt tag
  show "\<exists>d r w s rest. headLoop data = Inr d \<and> unmarshalValue L d (ValueOf v) = (Inr r, w)
          \<and> next_tag r = (s, ''</plist>'', rest)"
    by auto
  from tag have "tag \<noteq> []" by auto
  with nt have nt': "next_tag (r @ extra) = (s, tag, rest @ extra)"
    by (rule next_tag_append)
  from um r have "unmarshalValue L (d @ extra) (ValueOf v) = (Inr (r @ extra), w)"
    by (intro unmarshal_append(1)) simp
  with headLoop_append [OF d, of extra] nt' d um r nt
  show "Unmarshal L (data @ extra) v = Unmarshal L data v"
    by (simp add: Unmarshal_def)
next
  assume "headLoop data = Inr d \<and> unmarshalValue L d (ValueOf v) = (Inr r, w)
    \<and> fst (snd (next_tag r)) \<noteq> ''</plist>''"
  then show "Unmarshal L data v = (Some JunkOnEnd, Interface w)"
    by (auto simp: Unmarshal_def split: prod.splits)
qed

theorem Unmarshal_success_witness:
  "fst (Unmarshal exampleLib ''<plist><true/></plist>'' (Some (VPtr TBool (Some (VBool False))))) = None
   \<and> Unmarshal exampleLib (''<plist><true/></plist>'' @ ''<junk>'') (Some (VPtr TBool (Some (VBool False))))
       = Unmarshal exampleLib ''<plist><true/></plist>'' (Some (VPtr TBool (Some (VBool False))))
   \<and> headLoop ''<plist><true/><false/></plist>'' = Inr ''<true/><false/></plist>''
   \<and> unmarshalValue exampleLib ''<true/><false/></plist>'' (ValueOf (Some (VPtr TBool (Some (VBool False)))))
       = (Inr ''<false/></plist>'', Value (VPtr TBool (Some (VBool True))) Unaddressable)
   \<and> fst (snd (next_tag ''<false/></plist>'')) \<noteq> ''</plist>''
   \<and> Unmarshal exampleLib ''<plist><true/><false/></plist>'' (Some (VPtr TBool (Some (VBool False))))
       = (Some JunkOnEnd, Some (VPtr TBool (Some (VBool True))))"
proof -
  have a: "fst (Unmarshal exampleLib ''<plist><true/></plist>'' (Some (VPtr TBool (Some (VBool False))))) = None"
    by code_simp
  have b: "headLoop ''<plist><true/><false/></plist>'' = Inr ''<true/><false/></plist>''"
    by code_simp
  have c: "unmarshalValue exampleLib ''<true/><false/></plist>'' (ValueOf (Some (VPtr TBool (Some (VBool False)))))
       = (Inr ''<false/></plist>'', Value (VPtr TBool (Some (VBool True))) Unaddressable)"
    by code_simp
  have e: "fst (snd (next_tag ''<false/></plist>'')) \<noteq> ''</plist>''"
    by code_simp
  from a b c e
    Unmarshal_success [of exampleLib "''<plist><true/></plist>''" "Some (VPtr TBool (Some (VBool False)))" "''<junk>''"]
    Unmarshal_success [of exampleLib "''<plist><true/><false/></plist>''"
      "Some (VPtr TBool (Some (VBool False)))" _ "''<true/><false/></plist>''"
      "''<false/></plist>''" "Value (VPtr TBool (Some (VBool True))) Unaddressable"]
  show ?thesis
    by simp
qed

section \<open>Arrays into a slice of \<open>interface{}\<close>\<close>

text \<open>Unfolding the decoder at a known next tag.\<close>

lemma next_tag_literal:
  "CHR ''<'' \<notin> set pad \<Longrightarrow> CHR ''>'' \<notin> set body \<Longrightarrow>
     next_tag (pad @ (CHR ''<'' # body @ ''>'') @ rest) = (pad, CHR ''<'' # body @ ''>'', rest)"
  using next_tag_found [of pad body rest] by simp

lemmas next_tag_open =
  next_tag_literal [of _ "''string''", simplified]
  next_tag_literal [of _ "''integer''", simplified]
  next_tag_literal [of _ "''real''", simplified]
  next_tag_literal [of _ "''date''", simplified]
  next_tag_literal [of _ "''data''", simplified]
  next_tag_literal [of _ "''true/''", simplified]
  next_tag_literal [of _ "''false/''", simplified]
  next_tag_literal [of _ "''array''", simplified]

lemmas next_tag_close =
  next_tag_literal [of _ "''/string''", simplified]
  next_tag_literal [of _ "''/integer''", simplified]
  next_tag_literal [of _ "''/real''", simplified]
  next_tag_literal [of _ "''/date''", simplified]
  next_tag_literal [of _ "''/data''", simplified]
  next_tag_literal [of _ "''/array''", simplified]

lemma unmarshalValue_at_tag:
  "next_tag data = (s, tag, d) \<Longrightarrow> tag \<noteq> [] \<Longrightarrow> Kind v \<noteq> KPtr \<Longrightarrow>
     unmarshalValue L data v = unmarshalTag L tag d v"
  by (simp add: unmarshalValue.simps [of L data v])

lemma arrayLoop_end:
  "next_tag data = (s, ''</array>'', rest) \<Longrightarrow> arrayLoop L t data v = (Inr rest, v)"
  by (simp add: arrayLoop.simps [of L t data v])

lemma arrayLoop_element:
  "next_tag data = (s, tag, d) \<Longrightarrow> tag \<noteq> [] \<Longrightarrow> tag \<noteq> ''</array>'' \<Longrightarrow>
   unmarshalValue L data (Elem (Value (New (elemType t)) Unaddressable)) = (Inr d', e) \<Longrightarrow>
   Set v (Append v e) = Inr v' \<Longrightarrow>
     arrayLoop L t data v = arrayLoop L t d' v'"
  by (simp add: arrayLoop.simps [of L t data v])

lemma setTo_interface:
  "setTo (Value (VInterface y) Settable) x rest = (Inr rest, Value (VInterface (Some x)) Settable)"
  by (simp add: setTo_def)

lemma entryTag_neq:
  "entryTag e \<noteq> []" "entryTag e \<noteq> ''<dict>''" "entryTag e \<noteq> ''<array>''"
  "entryTag e \<noteq> ''</array>''"
  by (cases e; simp)+

lemma next_tag_entry:
  "CHR ''<'' \<notin> set pad \<Longrightarrow>
     next_tag (pad @ entryText e @ rest) = (pad, entryTag e, entryRest e @ rest)"
  using next_tag_open(6) [of pad rest] next_tag_open(7) [of pad rest]
  by (cases e) (simp_all add: next_tag_open)

lemma unmarshalScalar_entry:
  assumes body: "CHR ''<'' \<notin> set (entryBody e)" and val: "entryValue L e = Some x"
  shows "unmarshalScalar L (entryTag e) (entryRest e @ rest) (Value (VInterface y) Settable)
           = (Inr rest, Value (VInterface (Some x)) Settable)"
proof (cases e)
  case (EString b)
  with body val show ?thesis
    by (simp add: unmarshalScalar_def next_tag_close setTo_interface)
next
  case (EInteger b)
  with body val show ?thesis
    by (auto simp: unmarshalScalar_def next_tag_close setTo_interface)
next
  case (EReal b)
  with body val show ?thesis
    by (auto simp: unmarshalScalar_def next_tag_close setTo_interface)
next
  case (EDate b)
  with body val show ?thesis
    by (auto simp: unmarshalScalar_def next_tag_close setTo_interface)
next
  case (EData b)
  with body val show ?thesis
    by (auto simp: unmarshalScalar_def next_tag_close setTo_interface)
next
  case ETrue
  with val show ?thesis
    by (auto simp: unmarshalScalar_def setTo_interface)
next
  case EFalse
  with val show ?thesis
    by (auto simp: unmarshalScalar_def setTo_interface)
qed

lemma unmarshalValue_entry:
  assumes ok: "entryOk L (pad, e) x"
  shows "unmarshalValue L (pad @ entryText e @ rest) (Value (VInterface y) Settable)
           = (Inr rest, Value (VInterface (Some x)) Settable)"
proof -
  from ok have pad: "CHR ''<'' \<notin> set pad" and body: "CHR ''<'' \<notin> set (entryBody e)"
    and val: "entryValue L e = Some x"
    by (simp_all add: entryOk_def)
  from pad have nt: "next_tag (pad @ entryText e @ rest) = (pad, entryTag e, entryRest e @ rest)"
    by (rule next_tag_entry)
  have "unmarshalValue L (pad @ entryText e @ rest) (Value (VInterface y) Settable)
           = unmarshalTag L (entryTag e) (entryRest e @ rest) (Value (VInterface y) Settable)"
    using nt entryTag_neq(1) by (rule unmarshalValue_at_tag) simp
  also have "\<dots> = unmarshalScalar L (entryTag e) (entryRest e @ rest) (Value (VInterface y) Settable)"
    by (simp add: unmarshalTag.simps [of L "entryTag e"] entryTag_neq)
  also note unmarshalScalar_entry [OF body val]
  finally show ?thesis .
qed

lemma arrayLoop_entries:
  assumes "list_all2 (entryOk L) items vs" and "CHR ''<'' \<notin> set padE"
  shows "arrayLoop L (TSlice TInterface) (arrayText items @ padE @ ''</array>'' @ rest)
           (Value (VSlice TInterface xs) Settable)
         = (Inr rest, Value (VSlice TInterface (xs @ map (\<lambda>x. VInterface (Some x)) vs)) Settable)"
  using assms
proof (induction items vs arbitrary: xs rule: list_all2_induct)
  case Nil
  then have "next_tag (padE @ ''</array>'' @ rest) = (padE, ''</array>'', rest)"
    by (simp add: next_tag_close)
  from arrayLoop_end [OF this] show ?case
    by simp
next
  case (Cons pe items x vs)
  obtain pad e where pe: "pe = (pad, e)"
    by (cases pe) auto
  let ?R = "arrayText items @ padE @ ''</array>'' @ rest"
  let ?data = "pad @ entryText e @ ?R"
  from Cons.hyps(1) pe have ok: "entryOk L (pad, e) x" by simp
  from ok have nt: "next_tag ?data = (pad, entryTag e, entryRest e @ ?R)"
    by (intro next_tag_entry) (simp add: entryOk_def)
  from unmarshalValue_entry [OF ok, of ?R None]
  have um: "unmarshalValue L ?data (Elem (Value (New (elemType (TSlice TInterface))) Unaddressable))
              = (Inr ?R, Value (VInterface (Some x)) Settable)"
    by simp
  from Cons.IH [OF Cons.prems, of "xs @ [VInterface (Some x)]"]
  have ih: "arrayLoop L (TSlice TInterface) ?R (Value (VSlice TInterface (xs @ [VInterface (Some x)])) Settable)
      = (Inr rest, Value (VSlice TInterface (xs @ VInterface (Some x) # map (\<lambda>x. VInterface (Some x)) vs)) Settable)"
    by simp
  have "arrayLoop L (TSlice TInterface) ?data (Value (VSlice TInterface xs) Settable)
      = arrayLoop L (TSlice TInterface) ?R (Value (VSlice TInterface (xs @ [VInterface (Some x)])) Settable)"
    using nt entryTag_neq(1,4) um by (rule arrayLoop_element) simp
  with ih pe show ?case
    by simp
qed

text \<open>
  C7, as stated: every well-formed array decodes into a slice of \<open>interface{}\<close>, one
  element per entry. An entry that is a mapping (or an array) is refused by the guard
  on the kind of the element, which is \<open>Interface\<close>.
\<close>

theorem array_of_dynamic_counterexample:
  "unmarshalValue exampleLib ''<array><dict></dict></array>'' (Value (VSlice TInterface []) Settable)
   = (Inl (DictIntoNonStruct TInterface), Value (VSlice TInterface []) Settable)"
  by code_simp

text \<open>
  C7, amended: an array whose entries are strings, integers, reals, dates, data or
  booleans, with bodies that the conversions accept, decodes into a settable slice of
  \<open>interface{}\<close> by appending one element per entry, in the order of the document, each
  holding the value of its entry with the type of that kind (\<open>int\<close> for an integer,
  \<open>float64\<close> for a real, and so on); the rest is what follows the closing tag.
\<close>

theorem array_of_dynamic:
  assumes "list_all2 (entryOk L) items vs"
    and "CHR ''<'' \<notin> set pad" and "CHR ''<'' \<notin> set padE"
  shows "unmarshalValue L (pad @ ''<array>'' @ arrayText items @ padE @ ''</array>'' @ rest)
           (Value (VSlice TInterface xs) Settable)
         = (Inr rest, Value (VSlice TInterface (xs @ map (\<lambda>x. VInterface (Some x)) vs)) Settable)"
proof -
  let ?R = "arrayText items @ padE @ ''</array>'' @ rest"
  from assms(2) have "next_tag (pad @ ''<array>'' @ ?R) = (pad, ''<array>'', ?R)"
    by (simp add: next_tag_open)
  then have "unmarshalValue L (pad @ ''<array>'' @ ?R) (Value (VSlice TInterface xs) Settable)
      = unmarshalTag L ''<array>'' ?R (Value (VSlice TInterface xs) Settable)"
    by (rule unmarshalValue_at_tag) simp_all
  also have "\<dots> = arrayLoop L (TSlice TInterface) ?R (Value (VSlice TInterface xs) Settable)"
    by (simp add: unmarshalTag.simps [of L "''<array>''"])
  also note arrayLoop_entries [OF assms(1,3), of rest xs]
  finally show ?thesis .
qed

theorem array_of_dynamic_witness:
  "list_all2 (entryOk exampleLib)
     [([], EInteger ''8''), ('' '', EReal ''1.5''), ([], EInteger ''-9''), ([], ETrue), ([], EString ''a>b'')]
     [VInt 8, VFloat64 0x3FF8000000000000, VInt (- 9), VBool True, VString ''a>b'']
   \<and> unmarshalValue exampleLib
        (''<array>'' @ ''<integer>8</integer> <real>1.5</real><integer>-9</integer><true/><string>a>b</string>''
           @ ''</array>'' @ ''</plist>'')
        (Value (VSlice TInterface []) Settable)
      = (Inr ''</plist>'',
         Value (VSlice TInterface
           [VInterface (Some (VInt 8)), VInterface (Some (VFloat64 0x3FF8000000000000)),
            VInterface (Some (VInt (- 9))), VInterface (Some (VBool True)),
            VInterface (Some (VString ''a>b''))]) Settable)"
proof -
  have h: "list_all2 (entryOk exampleLib)
     [([], EInteger ''8''), ('' '', EReal ''1.5''), ([], EInteger ''-9''), ([], ETrue), ([], EString ''a>b'')]
     [VInt 8, VFloat64 0x3FF8000000000000, VInt (- 9), VBool True, VString ''a>b'']"
    by (simp add: entryOk_def exampleLib_def atoi64_def floatLiterals_def)
  from h array_of_dynamic [OF h, of "[]" "[]" "''</plist>''" "[]"] show ?thesis
    by simp
qed

section \<open>Where skipping is exact\<close>

text \<open>
  On markup in which every tag is closed \<open>skipValue\<close> consumes one element and nothing
  else, and a mapping whose values are of this form decodes into a struct without
  fields: the rest is what follows \<open></dict>\<close> and the destination is untouched, whatever
  its flags.
\<close>

lemma skipLoop_opening:
  "next_tag data = (s, tag, d) \<Longrightarrow> 2 \<le> length tag \<Longrightarrow> tag ! 1 \<noteq> CHR ''/'' \<Longrightarrow>
     skipLoop n data = skipLoop (n + 1) d"
  by (auto simp: skipLoop.simps [of n data])

lemma skipLoop_closing:
  "next_tag data = (s, tag, d) \<Longrightarrow> 2 \<le> length tag \<Longrightarrow> tag ! 1 = CHR ''/'' \<Longrightarrow>
     skipLoop (Suc n) data = (if n = 0 then Inr d else skipLoop n d)"
  by (auto simp: skipLoop.simps [of "Suc n" data])

lemma skipLoop_element:
  "balanced e \<Longrightarrow> skipLoop n (elementText e @ R) = (if n = 0 then Inr R else skipLoop n R)"
proof (induction e arbitrary: n R)
  case (Element p name kids q)
  from Element.prems have p: "CHR ''<'' \<notin> set p" and q: "CHR ''<'' \<notin> set q"
    and name: "CHR ''>'' \<notin> set name" "name \<noteq> []" "hd name \<noteq> CHR ''/''"
    and kids: "list_all balanced kids"
    by simp_all
  let ?close = "q @ ''</'' @ name @ ''>'' @ R"
  from name have n1: "(CHR ''<'' # name @ ''>'') ! 1 \<noteq> CHR ''/''"
    by (cases name) auto
  have inner: "skipLoop (Suc n) (concat (map elementText ks) @ ?close) = skipLoop (Suc n) ?close"
    if "set ks \<subseteq> set kids" for ks
    using that
  proof (induction ks)
    case Nil
    then show ?case by simp
  next
    case (Cons k ks)
    from Cons.prems kids have bk: "balanced k" and k: "k \<in> set kids"
      by (auto simp: list_all_iff)
    from Element.IH [OF k bk, of "Suc n" "concat (map elementText ks) @ ?close"] Cons
    show ?case by simp
  qed
  have "skipLoop n (elementText (Element p name kids q) @ R)
      = skipLoop n (p @ CHR ''<'' # name @ CHR ''>'' # (concat (map elementText kids) @ ?close))"
    by simp
  also have "\<dots> = skipLoop (n + 1) (concat (map elementText kids) @ ?close)"
    using next_tag_found [OF p name(1)] _ n1 by (rule skipLoop_opening) simp
  also have "\<dots> = skipLoop (Suc n) ?close"
    using inner [of kids] by simp
  also have "?close = q @ CHR ''<'' # (CHR ''/'' # name) @ CHR ''>'' # R"
    by simp
  also have "skipLoop (Suc n) \<dots> = (if n = 0 then Inr R else skipLoop n R)"
    using name(1) by (intro skipLoop_closing [OF next_tag_found [OF q]]) simp_all
  finally show ?case .
qed

lemma skipValue_element: "balanced e \<Longrightarrow> skipValue (elementText e @ R) = Inr R"
  by (simp add: skipValue_def skipLoop_element)

lemma dictLoop_end:
  "next_tag data = (s, ''</dict>'', rest) \<Longrightarrow> dictLoop L t data v = (Inr rest, v)"
  by (simp add: dictLoop.simps [of L t data v])

lemma dictLoop_unmatched:
  "next_tag data = (s, ''<key>'', d1) \<Longrightarrow> next_tag d1 = (body, ''</key>'', d2) \<Longrightarrow>
   fieldLoop (structFields t) body 0 = None \<Longrightarrow> skipValue d2 = Inr d3 \<Longrightarrow>
     dictLoop L t data v = dictLoop L t d3 v"
  by (simp add: dictLoop.simps [of L t data v])

lemma dictLoop_no_fields:
  assumes "list_all pairOk entries" and "CHR ''<'' \<notin> set padE"
  shows "dictLoop L (TStruct name []) (dictText entries @ padE @ ''</dict>'' @ rest) v = (Inr rest, v)"
  using assms(1)
proof (induction entries)
  case Nil
  from assms(2) have "next_tag (padE @ ''</dict>'' @ rest) = (padE, ''</dict>'', rest)"
    using next_tag_found [of padE "''/dict''" rest] by simp
  from dictLoop_end [OF this] show ?case by simp
next
  case (Cons pke entries)
  obtain p k e where pke: "pke = (p, k, e)"
    by (cases pke) auto
  from Cons.prems have ok: "pairOk pke" and rest: "list_all pairOk entries"
    by simp_all
  from ok pke have p: "CHR ''<'' \<notin> set p" and k: "CHR ''<'' \<notin> set k" and e: "balanced e"
    by (simp_all add: pairOk_def)
  let ?R = "dictText entries @ padE @ ''</dict>'' @ rest"
  let ?d2 = "elementText e @ ?R"
  let ?d1 = "k @ ''</key>'' @ ?d2"
  have 1: "next_tag (p @ ''<key>'' @ ?d1) = (p, ''<key>'', ?d1)"
    using p next_tag_found [of p "''key''" ?d1] by simp
  have 2: "next_tag ?d1 = (k, ''</key>'', ?d2)"
    using k next_tag_found [of k "''/key''" ?d2] by simp
  have 3: "fieldLoop (structFields (TStruct name [])) k 0 = None"
    by (simp add: fieldLoop.simps)
  have "dictLoop L (TStruct name []) (p @ ''<key>'' @ ?d1) v = dictLoop L (TStruct name []) ?R v"
    using 1 2 3 skipValue_element [OF e] by (rule dictLoop_unmatched)
  with Cons.IH [OF rest] pke show ?case
    by simp
qed

lemma dict_into_empty_struct:
  assumes "list_all pairOk entries" and "CHR ''<'' \<notin> set pad" and "CHR ''<'' \<notin> set padE"
  shows "unmarshalValue L (pad @ ''<dict>'' @ dictText entries @ padE @ ''</dict>'' @ rest)
           (Value (VStruct name []) f)
         = (Inr rest, Value (VStruct name []) f)"
proof -
  let ?R = "dictText entries @ padE @ ''</dict>'' @ rest"
  let ?v = "Value (VStruct name []) f"
  from assms(2) have "next_tag (pad @ ''<dict>'' @ ?R) = (pad, ''<dict>'', ?R)"
    using next_tag_found [of pad "''dict''" ?R] by simp
  then have "unmarshalValue L (pad @ ''<dict>'' @ ?R) ?v = unmarshalTag L ''<dict>'' ?R ?v"
    by (rule unmarshalValue_at_tag) simp_all
  also have "\<dots> = dictLoop L (TStruct name []) ?R ?v"
    by (simp add: unmarshalTag.simps [of L "''<dict>''"])
  also note dictLoop_no_fields [OF assms(1,3)]
  finally show ?thesis .
qed

end
